theory Spec2Isabelle
  imports Main
begin

unbundle bit_operations_syntax

section \<open>The puzzle state\<close>

text \<open>
  A \<open>State\<close> of \<open>solver.py\<close> carries the tuple of water levels, the tuple of capacities,
  the target amount and the refill flag.  Python integers are unbounded, so the levels
  are of type \<open>int\<close>; tuples are lists.
\<close>

record State =
  "values" :: "int list"
  constraints :: "int list"
  target :: int
  allow_refills :: bool

text \<open>
  The exceptions of the module.  \<open>IndexError\<close> comes from a tuple subscript out of range
  and from \<open>argmax\<close> on an empty domain; its argument is the message.
  \<open>AttributeError\<close> comes from \<open>State.__eq__\<close> when the other object is no state: line 74
  reads \<open>other.values\<close>; its argument is the name of the attribute that is missing.
\<close>

datatype error = IndexError string | AttributeError string

text \<open>
  Entries of the \<open>explored\<close> dictionary and of the list that the search returns: either a
  state or the empty tuple \<open>()\<close> that \<open>breadth_first_search\<close> records as the predecessor
  of the initial state.
\<close>

datatype entry = Sentinel | Node State

text \<open>The subscript \<open>xs[i]\<close> of a tuple, for an index that comes from \<open>enumerate\<close>.\<close>

definition subscript :: "int list \<Rightarrow> nat \<Rightarrow> error + int" where
  "subscript xs i =
     (if i < length xs then Inr (xs ! i) else Inl (IndexError ''tuple index out of range''))"

text \<open>\<open>State._replace\<close>: \<open>values[:index] + (new_val,) + values[index+1:]\<close>.\<close>

definition replace :: "int list \<Rightarrow> nat \<Rightarrow> int \<Rightarrow> int list" where
  "replace vs index new_val = take index vs @ [new_val] @ drop (index + 1) vs"

section \<open>Neighbours\<close>

text \<open>
  \<open>get_neighbors\<close> collects tuples in a Python \<open>set\<close> and finally iterates over that set.
  The model threads the sequence of \<open>add\<close> calls (\<open>neighbors\<close>) through the loops.  The
  order in which a set is iterated is not fixed by the language, so the listing of the
  set is a parameter \<open>iter\<close> of the model, from the sequence of additions to the list
  iterated; \<open>set_iteration\<close> is all that is known of it: the same elements, each once.
\<close>

definition set_iteration :: "(int list list \<Rightarrow> int list list) \<Rightarrow> bool" where
  "set_iteration iter = (\<forall>adds. set (iter adds) = set adds \<and> distinct (iter adds))"

text \<open>The first loop (lines 44 to 48): emptying and filling bucket \<open>i\<close>.\<close>

fun empty_fill_loop ::
  "State \<Rightarrow> (nat \<times> int) list \<Rightarrow> int list list \<Rightarrow> error + int list list" where
  "empty_fill_loop s [] neighbors = Inr neighbors"
| "empty_fill_loop s ((i, val) # rest) neighbors =
     (let neighbors1 =
            (if val \<noteq> 0 then neighbors @ [replace (values s) i 0] else neighbors)
      in case subscript (constraints s) i of
           Inl e \<Rightarrow> Inl e
         | Inr c \<Rightarrow>
             empty_fill_loop s rest
               (if val \<noteq> c \<and> allow_refills s
                then neighbors1 @ [replace (values s) i c] else neighbors1))"

text \<open>The inner loop of the second part (lines 53 to 62): pouring bucket \<open>i\<close> into \<open>j\<close>.\<close>

fun pour_into_loop ::
  "State \<Rightarrow> nat \<Rightarrow> int \<Rightarrow> (nat \<times> int) list \<Rightarrow> int list list \<Rightarrow> error + int list list" where
  "pour_into_loop s i val_i [] neighbors = Inr neighbors"
| "pour_into_loop s i val_i ((j, val_j) # rest) neighbors =
     (if i \<noteq> j then
        (case subscript (constraints s) j of
           Inl e \<Rightarrow> Inl e
         | Inr c \<Rightarrow>
             (let space_left = c - val_j in
              if space_left \<ge> 0 then
                (let moving = min val_i space_left;
                     new_values = replace (values s) j (val_j + moving);
                     new_values' = replace new_values i (val_i - moving)
                 in pour_into_loop s i val_i rest (neighbors @ [new_values']))
              else pour_into_loop s i val_i rest neighbors))
      else pour_into_loop s i val_i rest neighbors)"

text \<open>The outer loop of the second part (lines 51 and 52).\<close>

fun pour_loop ::
  "State \<Rightarrow> (nat \<times> int) list \<Rightarrow> int list list \<Rightarrow> error + int list list" where
  "pour_loop s [] neighbors = Inr neighbors"
| "pour_loop s ((i, val_i) # rest) neighbors =
     (if val_i \<noteq> 0 then
        (case pour_into_loop s i val_i (enumerate 0 (values s)) neighbors of
           Inl e \<Rightarrow> Inl e
         | Inr neighbors' \<Rightarrow> pour_loop s rest neighbors')
      else pour_loop s rest neighbors)"

text \<open>The state built from a tuple of the set (lines 64 and 65).\<close>

definition with_values :: "State \<Rightarrow> int list \<Rightarrow> State" where
  "with_values s n =
     \<lparr>values = n, constraints = constraints s, target = target s,
      allow_refills = allow_refills s\<rparr>"

definition get_neighbors ::
  "(int list list \<Rightarrow> int list list) \<Rightarrow> State \<Rightarrow> error + State list" where
  "get_neighbors iter s =
     (case empty_fill_loop s (enumerate 0 (values s)) [] of
        Inl e \<Rightarrow> Inl e
      | Inr neighbors \<Rightarrow>
          (case pour_loop s (enumerate 0 (values s)) neighbors of
             Inl e \<Rightarrow> Inl e
           | Inr neighbors' \<Rightarrow> Inr (map (with_values s) (iter neighbors'))))"

text \<open>\<open>is_goal\<close>: \<open>any([val == self.target for val in self.values])\<close>.\<close>

definition is_goal :: "State \<Rightarrow> bool" where
  "is_goal s = list_ex (\<lambda>val. val = target s) (values s)"

section \<open>Breadth-first search\<close>

text \<open>
  \<open>__eq__\<close> and \<open>__hash__\<close> of a state look at \<open>values\<close> only, so the keys of the
  dictionary \<open>explored\<close> are tuples of levels; the dictionary is the list of its items in
  the order of their insertion.  A state is looked up by \<open>map_of\<close>: \<open>State.__eq__\<close> compares
  it with the keys of equal hash and raises nothing.
\<close>

type_synonym explored = "(int list \<times> entry) list"

text \<open>
  The test \<open>() in explored\<close> of line 124, reached when the last element of \<open>path\<close> is the
  empty tuple.  The dictionary compares the empty tuple with every key that has the hash
  of the empty tuple, by \<open>State.__eq__(key, ())\<close>, and that call raises \<open>AttributeError\<close>
  on \<open>().values\<close>.  With no such key the answer is \<open>False\<close>: the empty tuple is no key.
  The hash of a tuple belongs to the Python runtime and is a parameter \<open>hash\<close> of the
  model.  The result is the exception raised, if any.
\<close>

definition empty_tuple_in :: "(int list \<Rightarrow> 'h) \<Rightarrow> explored \<Rightarrow> error option" where
  "empty_tuple_in hash explored =
     (if list_ex (\<lambda>item. hash (fst item) = hash []) explored
      then Some (AttributeError ''values'') else None)"

text \<open>
  \<open>unravel_bfs\<close> (lines 123 to 126).  The loop follows the dictionary from the last
  element of \<open>path\<close>; it may run forever on a dictionary with a cycle, which is the
  value \<open>None\<close>.
\<close>

partial_function (option) unravel_loop ::
  "(int list \<Rightarrow> 'h) \<Rightarrow> explored \<Rightarrow> entry list \<Rightarrow> (error + entry list) option" where
  "unravel_loop hash explored path =
     (case last path of
        Sentinel \<Rightarrow>
          (case empty_tuple_in hash explored of
             Some e \<Rightarrow> Some (Inl e)
           | None \<Rightarrow> Some (Inr path))
      | Node s \<Rightarrow>
          (case map_of explored (values s) of
             None \<Rightarrow> Some (Inr path)
           | Some p \<Rightarrow> unravel_loop hash explored (path @ [p])))"

declare unravel_loop.simps [code]

definition unravel_bfs ::
  "(int list \<Rightarrow> 'h) \<Rightarrow> State \<Rightarrow> explored \<Rightarrow> (error + entry list) option" where
  "unravel_bfs hash state explored =
     map_option (map_sum id rev) (unravel_loop hash explored [Node state])"

text \<open>The body of the loop over the neighbours (lines 112 to 114).\<close>

fun visit :: "State \<Rightarrow> explored \<times> State list \<Rightarrow> State \<Rightarrow> explored \<times> State list" where
  "visit state (explored, queue) i =
     (if map_of explored (values i) = None
      then (explored @ [(values i, Node state)], queue @ [i])
      else (explored, queue))"

text \<open>
  The \<open>while queue\<close> loop (lines 107 to 115).  \<open>None\<close> is a search that never returns,
  \<open>Some (Inl e)\<close> one that raises \<open>e\<close>, \<open>Some (Inr path)\<close> one that returns \<open>path\<close>.
\<close>

partial_function (option) bfs_loop ::
  "(int list list \<Rightarrow> int list list) \<Rightarrow> (int list \<Rightarrow> 'h) \<Rightarrow> explored \<Rightarrow> State list
   \<Rightarrow> (error + entry list) option"
  where
  "bfs_loop iter hash explored queue =
     (case queue of
        [] \<Rightarrow> Some (Inr [])
      | state # rest \<Rightarrow>
          if is_goal state then unravel_bfs hash state explored
          else (case get_neighbors iter state of
                  Inl e \<Rightarrow> Some (Inl e)
                | Inr ns \<Rightarrow>
                    bfs_loop iter hash (fst (foldl (visit state) (explored, rest) ns))
                      (snd (foldl (visit state) (explored, rest) ns))))"

declare bfs_loop.simps [code]

definition breadth_first_search ::
  "(int list list \<Rightarrow> int list list) \<Rightarrow> (int list \<Rightarrow> 'h) \<Rightarrow> State
   \<Rightarrow> (error + entry list) option" where
  "breadth_first_search iter hash initial_state =
     bfs_loop iter hash [(values initial_state, Sentinel)] [initial_state]"

text \<open>\<open>puzzle_difficulty\<close>: the length of the list that the search returns.\<close>

definition puzzle_difficulty ::
  "(int list list \<Rightarrow> int list list) \<Rightarrow> (int list \<Rightarrow> 'h) \<Rightarrow> State \<Rightarrow> (error + nat) option" where
  "puzzle_difficulty iter hash state =
     map_option (map_sum id length) (breadth_first_search iter hash state)"

text \<open>
  The hash of a tuple of integers in 64-bit CPython 3.8 and later, as an unsigned 64-bit
  number: the hash of an integer (reduction modulo \<open>2^61 - 1\<close>, with \<open>-2\<close> for \<open>-1\<close>), and
  the loop of \<open>tuplehash\<close> with its three constants and its rotation by 31 bits.  This is
  the instance of \<open>hash\<close> at which the examples are evaluated.
\<close>

definition long_hash :: "int \<Rightarrow> int" where
  "long_hash n = (let h = sgn n * (\<bar>n\<bar> mod (2 ^ 61 - 1)) in if h = - 1 then - 2 else h)"

definition rotate_left_31 :: "int \<Rightarrow> int" where
  "rotate_left_31 x = (x * 2 ^ 31) mod 2 ^ 64 + x div 2 ^ 33"

fun tuple_hash_loop :: "int \<Rightarrow> int list \<Rightarrow> int" where
  "tuple_hash_loop acc [] = acc"
| "tuple_hash_loop acc (item # rest) =
     tuple_hash_loop
       ((rotate_left_31 ((acc + long_hash item * 14029467366897019727) mod 2 ^ 64)
         * 11400714785074694791) mod 2 ^ 64) rest"

definition tuple_hash :: "int list \<Rightarrow> int" where
  "tuple_hash v =
     (let acc = (tuple_hash_loop 2870177450012600261 v
                 + (int (length v) XOR (2870177450012600261 XOR 3527539))) mod 2 ^ 64
      in if acc = 2 ^ 64 - 1 then 1546275796 else acc)"

section \<open>argmax\<close>

text \<open>The loop of \<open>argmax\<close> (lines 138 to 142), with \<open>arg\<close> and \<open>max_func_val\<close> as state.\<close>

fun argmax_loop :: "('a \<Rightarrow> 'b::linorder) \<Rightarrow> 'a list \<Rightarrow> 'a \<Rightarrow> 'b \<Rightarrow> 'a" where
  "argmax_loop func [] arg max_func_val = arg"
| "argmax_loop func (i # rest) arg max_func_val =
     (let val = func i in
      if val > max_func_val then argmax_loop func rest i val
      else argmax_loop func rest arg max_func_val)"

definition argmax :: "'a list \<Rightarrow> ('a \<Rightarrow> 'b::linorder) \<Rightarrow> error + 'a" where
  "argmax domain func =
     (if domain = [] then Inl (IndexError ''domain is empty:'')
      else Inr (argmax_loop func domain (domain ! 0) (func (domain ! 0))))"

section \<open>Specification vocabulary\<close>

text \<open>
  The capacity invariant of a configuration: one capacity for each bucket, and every
  level between \<open>0\<close> and the bucket's capacity.
\<close>

definition capacity_invariant :: "State \<Rightarrow> bool" where
  "capacity_invariant s =
     (length (values s) = length (constraints s)
      \<and> (\<forall>i < length (values s). 0 \<le> values s ! i \<and> values s ! i \<le> constraints s ! i))"

text \<open>
  Every bucket has a capacity: no subscript of \<open>get_neighbors\<close> is out of range.
\<close>

definition indexable :: "State \<Rightarrow> bool" where
  "indexable s = (length (values s) \<le> length (constraints s))"

text \<open>
  The tuple after pouring bucket \<open>i\<close> into bucket \<open>j\<close>, and the set of tuples that the
  three kinds of move produce from a configuration: this is the set that \<open>get_neighbors\<close>
  builds (\<open>set_neighbor_adds\<close> and \<open>get_neighbors_moves\<close> below).
\<close>

definition pour :: "State \<Rightarrow> nat \<Rightarrow> nat \<Rightarrow> int list" where
  "pour s i j =
     (let moving = min (values s ! i) (constraints s ! j - values s ! j)
      in (values s)[j := values s ! j + moving, i := values s ! i - moving])"

definition moves :: "State \<Rightarrow> int list set" where
  "moves s =
     {(values s)[i := 0] | i. i < length (values s) \<and> values s ! i \<noteq> 0}
     \<union> {(values s)[i := constraints s ! i] | i.
          i < length (values s) \<and> values s ! i \<noteq> constraints s ! i \<and> allow_refills s}
     \<union> {pour s i j | i j.
          i < length (values s) \<and> j < length (values s) \<and> i \<noteq> j
          \<and> values s ! i \<noteq> 0 \<and> 0 \<le> constraints s ! j - values s ! j}"

text \<open>
  The tuples that one round of each loop of \<open>get_neighbors\<close> adds, in the order of the
  additions, and the whole sequence of additions of a call that raises nothing.
\<close>

definition empty_fill_adds :: "State \<Rightarrow> nat \<times> int \<Rightarrow> int list list" where
  "empty_fill_adds s p =
     (if snd p \<noteq> 0 then [replace (values s) (fst p) 0] else [])
     @ (if snd p \<noteq> constraints s ! fst p \<and> allow_refills s
        then [replace (values s) (fst p) (constraints s ! fst p)] else [])"

definition pour_into_adds :: "State \<Rightarrow> nat \<Rightarrow> int \<Rightarrow> nat \<times> int \<Rightarrow> int list list" where
  "pour_into_adds s i val_i p =
     (if i \<noteq> fst p \<and> 0 \<le> constraints s ! fst p - snd p
      then [replace (replace (values s) (fst p) (snd p + min val_i (constraints s ! fst p - snd p)))
              i (val_i - min val_i (constraints s ! fst p - snd p))]
      else [])"

definition pour_adds :: "State \<Rightarrow> nat \<times> int \<Rightarrow> int list list" where
  "pour_adds s p =
     (if snd p \<noteq> 0
      then concat (map (pour_into_adds s (fst p) (snd p)) (enumerate 0 (values s))) else [])"

definition neighbor_adds :: "State \<Rightarrow> int list list" where
  "neighbor_adds s =
     concat (map (empty_fill_adds s) (enumerate 0 (values s)))
     @ concat (map (pour_adds s) (enumerate 0 (values s)))"

text \<open>Both buckets of the puzzle with capacities \<open>(5, 3)\<close> full.\<close>

definition example_full :: State where
  "example_full = \<lparr>values = [5, 3], constraints = [5, 3], target = 4, allow_refills = True\<rparr>"

text \<open>The third example of the module: capacities \<open>(8, 5, 3)\<close>, no refills.\<close>

definition example_no_refills :: State where
  "example_no_refills =
     \<lparr>values = [8, 0, 0], constraints = [8, 5, 3], target = 4, allow_refills = False\<rparr>"

text \<open>The fourth scenario of the specification: the target \<open>0\<close> is there at the start.\<close>

definition example_solved :: State where
  "example_solved = \<lparr>values = [0, 0], constraints = [1, 1], target = 0, allow_refills = True\<rparr>"

text \<open>
  \<open>reach s0 n v\<close>: the tuple \<open>v\<close> is obtained from the initial state \<open>s0\<close> by \<open>n\<close>
  moves.  All the states of one search share the capacities, the target and the flag of
  the initial state, so a state of the search is \<open>with_values s0 v\<close>.  \<open>distance\<close> is the
  least number of moves to a reachable tuple.
\<close>

inductive reach :: "State \<Rightarrow> nat \<Rightarrow> int list \<Rightarrow> bool" for s0 :: State where
  reach_start: "reach s0 0 (values s0)"
| reach_move: "reach s0 n u \<Longrightarrow> v \<in> moves (with_values s0 u) \<Longrightarrow> reach s0 (Suc n) v"

definition reachable :: "State \<Rightarrow> int list set" where
  "reachable s0 = {v. \<exists>n. reach s0 n v}"

definition distance :: "State \<Rightarrow> int list \<Rightarrow> nat" where
  "distance s0 v = (LEAST n. reach s0 n v)"

text \<open>
  The reachable tuples that are at most one move further from the initial state than
  every reachable goal: the search never sees another tuple.
\<close>

definition near :: "State \<Rightarrow> int list set" where
  "near s0 =
     {v \<in> reachable s0.
        \<forall>g \<in> reachable s0. is_goal (with_values s0 g) \<longrightarrow> distance s0 v \<le> Suc (distance s0 g)}"

text \<open>The tuples within the capacities \<open>cs\<close>.\<close>

definition space :: "int list \<Rightarrow> int list set" where
  "space cs = {v. length v = length cs \<and> (\<forall>i < length v. 0 \<le> v ! i \<and> v ! i \<le> cs ! i)}"

text \<open>
  The invariant of the \<open>while\<close> loop, in three parts, on the dictionary as a map from its
  keys (\<open>map_of\<close>) and on the queue.  The dictionary is a tree of
  shortest paths: the initial tuple has the empty tuple as predecessor and is the only one
  that has, every other key is one move after its predecessor and one further from the
  initial state, and every key is reachable.
\<close>

definition tree_invariant :: "State \<Rightarrow> (int list \<rightharpoonup> entry) \<Rightarrow> bool" where
  "tree_invariant s0 E =
     (E (values s0) = Some Sentinel
      \<and> (\<forall>k. E k = Some Sentinel \<longrightarrow> k = values s0)
      \<and> (\<forall>k p. E k = Some (Node p) \<longrightarrow>
             p = with_values s0 (values p) \<and> E (values p) \<noteq> None \<and> k \<in> moves p
             \<and> distance s0 k = Suc (distance s0 (values p)))
      \<and> (\<forall>k. E k \<noteq> None \<longrightarrow> k \<in> reachable s0))"

text \<open>
  The queue holds states of this puzzle that are keys of the dictionary, each tuple once,
  in the order of their distances, which span at most two consecutive values.
\<close>

definition queue_invariant :: "State \<Rightarrow> (int list \<rightharpoonup> entry) \<Rightarrow> State list \<Rightarrow> bool" where
  "queue_invariant s0 E Q =
     ((\<forall>q \<in> set Q. q = with_values s0 (values q) \<and> E (values q) \<noteq> None)
      \<and> distinct (map values Q)
      \<and> sorted (map (\<lambda>q. distance s0 (values q)) Q)
      \<and> (\<forall>q \<in> set Q. distance s0 (values q) \<le> Suc (distance s0 (values (hd Q)))))"

text \<open>
  A key that is no longer in the queue has been expanded: it is not a goal and all its
  neighbours are keys.  Every reachable tuple that is no further than the head of the queue
  is a key.
\<close>

definition closed_invariant :: "State \<Rightarrow> (int list \<rightharpoonup> entry) \<Rightarrow> State list \<Rightarrow> bool" where
  "closed_invariant s0 E Q =
     ((\<forall>k. E k \<noteq> None \<and> k \<notin> values ` set Q \<longrightarrow>
          \<not> is_goal (with_values s0 k) \<and> (\<forall>v \<in> moves (with_values s0 k). E v \<noteq> None))
      \<and> (\<forall>v \<in> reachable s0.
            Q \<noteq> [] \<and> distance s0 v \<le> distance s0 (values (hd Q)) \<longrightarrow> E v \<noteq> None))"

definition bfs_invariant :: "State \<Rightarrow> (int list \<rightharpoonup> entry) \<Rightarrow> State list \<Rightarrow> bool" where
  "bfs_invariant s0 E Q =
     (tree_invariant s0 E \<and> queue_invariant s0 E Q \<and> closed_invariant s0 E Q)"

text \<open>
  The items that the loop over the neighbours of \<open>p\<close> appends to the dictionary, for the
  states \<open>new\<close> that it appends to the queue, and the dictionary after that loop, as a map
  (\<open>foldl_visit_neighbors\<close>).
\<close>

definition discoveries :: "State \<Rightarrow> State list \<Rightarrow> explored" where
  "discoveries p new = map (\<lambda>i. (values i, Node p)) new"

definition discover ::
  "State \<Rightarrow> (int list \<rightharpoonup> entry) \<Rightarrow> (int list \<rightharpoonup> entry)" where
  "discover p E = (\<lambda>k. if E k = None \<and> k \<in> moves p then Some (Node p) else E k)"

text \<open>
  A legal move from \<open>s\<close> to \<open>t\<close>: \<open>get_neighbors\<close> on \<open>s\<close> returns \<open>t\<close>.  A sequence of
  legal moves is a list of states in which each state is followed by one of its
  neighbours.
\<close>

definition is_move :: "(int list list \<Rightarrow> int list list) \<Rightarrow> State \<Rightarrow> State \<Rightarrow> bool" where
  "is_move iter s t = (case get_neighbors iter s of Inl e \<Rightarrow> False | Inr ns \<Rightarrow> t \<in> set ns)"

fun legal_path :: "(int list list \<Rightarrow> int list list) \<Rightarrow> State list \<Rightarrow> bool" where
  "legal_path iter [] = True"
| "legal_path iter [s] = True"
| "legal_path iter (s # t # rest) = (is_move iter s t \<and> legal_path iter (t # rest))"

text \<open>
  The outcomes of the search, in terms of the reachable tuples: the empty tuple followed
  by a sequence of legal moves from the initial state to a goal that is no longer than the
  distance of any reachable goal allows; or \<open>AttributeError\<close>, when a goal is reachable
  and a tuple that the search can see has the hash of the empty tuple; or the empty list,
  when no reachable tuple is a goal.
\<close>

definition bfs_post ::
  "(int list list \<Rightarrow> int list list) \<Rightarrow> (int list \<Rightarrow> 'h) \<Rightarrow> State
   \<Rightarrow> (error + entry list) option \<Rightarrow> bool" where
  "bfs_post iter hash s0 r =
     ((\<exists>p. r = Some (Inr (Sentinel # map Node p)) \<and> p \<noteq> [] \<and> hd p = s0
           \<and> legal_path iter p \<and> is_goal (last p)
           \<and> (\<forall>v \<in> reachable s0. is_goal (with_values s0 v) \<longrightarrow> length p \<le> Suc (distance s0 v)))
      \<or> (r = Some (Inl (AttributeError ''values''))
          \<and> (\<exists>k \<in> near s0. hash k = hash [])
          \<and> (\<exists>p. p \<noteq> [] \<and> hd p = s0 \<and> legal_path iter p \<and> is_goal (last p)))
      \<or> (r = Some (Inr []) \<and> (\<forall>v \<in> reachable s0. \<not> is_goal (with_values s0 v))))"

text \<open>
  The first example of the module: capacities \<open>(5, 3)\<close>, target \<open>4\<close>, both buckets empty;
  and the seven states of its solution in six moves.
\<close>

definition example_die_hard :: State where
  "example_die_hard = \<lparr>values = [0, 0], constraints = [5, 3], target = 4, allow_refills = True\<rparr>"

definition die_hard_path :: "State list" where
  "die_hard_path = map (with_values example_die_hard)
     [[0, 0], [5, 0], [2, 3], [2, 0], [0, 2], [5, 2], [4, 3]]"

text \<open>
  A puzzle with a reachable tuple, \<open>(0, 268219835420928158)\<close>, that has the hash of the
  empty tuple.  One move, filling the first bucket, solves it.
\<close>

definition example_collision :: State where
  "example_collision =
     \<lparr>values = [0, 0], constraints = [1, 268219835420928158], target = 1, allow_refills = True\<rparr>"

text \<open>The fifth scenario of the specification: capacities \<open>(2, 2)\<close>, target \<open>3\<close>.\<close>

definition example_unsolvable :: State where
  "example_unsolvable = \<lparr>values = [0, 0], constraints = [2, 2], target = 3, allow_refills = True\<rparr>"

text \<open>
  The states that the \<open>while\<close> loop goes through: the dictionary and the queue at the
  head of the loop, with the list of all the states appended to the queue so far (the
  initial one, then at each round what the round added at the end of the queue).
\<close>

inductive bfs_run ::
  "(int list list \<Rightarrow> int list list) \<Rightarrow> State \<Rightarrow> explored \<Rightarrow> State list \<Rightarrow> State list \<Rightarrow> bool"
  for iter :: "int list list \<Rightarrow> int list list" and s0 :: State where
  run_start: "bfs_run iter s0 [(values s0, Sentinel)] [s0] [s0]"
| run_step:
    "bfs_run iter s0 explored (state # rest) enqueued \<Longrightarrow> \<not> is_goal state \<Longrightarrow>
     get_neighbors iter state = Inr ns \<Longrightarrow>
     foldl (visit state) (explored, rest) ns = (explored', queue') \<Longrightarrow>
     bfs_run iter s0 explored' queue' (enqueued @ drop (length rest) queue')"

section \<open>Neighbours: the tuples added\<close>

lemma replace_update: "i < length vs \<Longrightarrow> replace vs i x = vs[i := x]"
  by (simp add: replace_def upd_conv_take_nth_drop)

lemma empty_fill_loop_adds:
  "\<forall>p \<in> set ps. fst p < length (constraints s) \<Longrightarrow>
   empty_fill_loop s ps acc = Inr (acc @ concat (map (empty_fill_adds s) ps))"
proof (induction ps arbitrary: acc)
  case Nil
  then show ?case by simp
next
  case (Cons p ps)
  obtain i val where p: "p = (i, val)" by (cases p)
  have i: "i < length (constraints s)" using Cons.prems p by simp
  have rest: "\<forall>p \<in> set ps. fst p < length (constraints s)" using Cons.prems by simp
  show ?case
    using i Cons.IH [OF rest]
    by (simp add: p subscript_def empty_fill_adds_def Let_def)
qed

lemma pour_into_loop_adds:
  "\<forall>p \<in> set ps. fst p < length (constraints s) \<Longrightarrow>
   pour_into_loop s i val_i ps acc = Inr (acc @ concat (map (pour_into_adds s i val_i) ps))"
proof (induction ps arbitrary: acc)
  case Nil
  then show ?case by simp
next
  case (Cons p ps)
  obtain j val where p: "p = (j, val)" by (cases p)
  have j: "j < length (constraints s)" using Cons.prems p by simp
  have rest: "\<forall>p \<in> set ps. fst p < length (constraints s)" using Cons.prems by simp
  show ?case
  proof (cases "i = j")
    case True
    then show ?thesis
      using Cons.IH [OF rest] by (simp add: p pour_into_adds_def)
  next
    case False
    then show ?thesis
      using j Cons.IH [OF rest]
      by (simp add: p subscript_def pour_into_adds_def Let_def)
  qed
qed

lemma enumerate_fst_bound:
  "length vs \<le> n \<Longrightarrow> \<forall>p \<in> set (enumerate 0 vs). fst p < n"
  by (auto simp add: in_set_enumerate_eq)

lemma pour_loop_adds:
  assumes "length (values s) \<le> length (constraints s)"
  shows "pour_loop s ps acc = Inr (acc @ concat (map (pour_adds s) ps))"
proof (induction ps arbitrary: acc)
  case Nil
  then show ?case by simp
next
  case (Cons p ps)
  obtain i val where p: "p = (i, val)" by (cases p)
  have inner: "pour_into_loop s i val (enumerate 0 (values s)) acc
     = Inr (acc @ concat (map (pour_into_adds s i val) (enumerate 0 (values s))))"
    using pour_into_loop_adds [OF enumerate_fst_bound [OF assms]] .
  show ?case
    using Cons.IH by (simp add: p inner pour_adds_def)
qed

lemma get_neighbors_adds:
  assumes "length (values s) \<le> length (constraints s)"
  shows "get_neighbors iter s = Inr (map (with_values s) (iter (neighbor_adds s)))"
  using enumerate_fst_bound [OF assms] assms
  by (simp add: get_neighbors_def empty_fill_loop_adds pour_loop_adds neighbor_adds_def)

lemma set_empty_fill_adds:
  "(\<Union>p \<in> set (enumerate 0 (values s)). set (empty_fill_adds s p))
   = {(values s)[i := 0] | i. i < length (values s) \<and> values s ! i \<noteq> 0}
     \<union> {(values s)[i := constraints s ! i] | i.
          i < length (values s) \<and> values s ! i \<noteq> constraints s ! i \<and> allow_refills s}"
  (is "?L = ?R")
proof (intro set_eqI iffI)
  fix t assume "t \<in> ?L"
  then obtain i where i: "i < length (values s)"
    and t: "t \<in> set (empty_fill_adds s (i, values s ! i))"
    by (auto simp add: in_set_enumerate_eq)
  show "t \<in> ?R"
    using t i by (auto simp add: empty_fill_adds_def replace_update split: if_splits)
next
  fix t assume "t \<in> ?R"
  then consider i where "i < length (values s)" "values s ! i \<noteq> 0" "t = (values s)[i := 0]"
    | i where "i < length (values s)" "values s ! i \<noteq> constraints s ! i" "allow_refills s"
        "t = (values s)[i := constraints s ! i]"
    by blast
  then show "t \<in> ?L"
  proof cases
    case 1
    have "(i, values s ! i) \<in> set (enumerate 0 (values s))"
      using 1 by (simp add: in_set_enumerate_eq)
    moreover have "t \<in> set (empty_fill_adds s (i, values s ! i))"
      using 1 by (simp add: empty_fill_adds_def replace_update)
    ultimately show ?thesis by blast
  next
    case 2
    have "(i, values s ! i) \<in> set (enumerate 0 (values s))"
      using 2 by (simp add: in_set_enumerate_eq)
    moreover have "t \<in> set (empty_fill_adds s (i, values s ! i))"
      using 2 by (simp add: empty_fill_adds_def replace_update)
    ultimately show ?thesis by blast
  qed
qed

lemma pour_into_adds_pour:
  assumes "i < length (values s)" "j < length (values s)"
  shows "set (pour_into_adds s i (values s ! i) (j, values s ! j))
    = (if i \<noteq> j \<and> 0 \<le> constraints s ! j - values s ! j then {pour s i j} else {})"
  using assms by (simp add: pour_into_adds_def pour_def replace_update Let_def)

lemma set_pour_adds:
  "(\<Union>p \<in> set (enumerate 0 (values s)). set (pour_adds s p))
   = {pour s i j | i j.
          i < length (values s) \<and> j < length (values s) \<and> i \<noteq> j
          \<and> values s ! i \<noteq> 0 \<and> 0 \<le> constraints s ! j - values s ! j}"
  (is "?L = ?R")
proof (intro set_eqI iffI)
  fix t assume "t \<in> ?L"
  then obtain i where i: "i < length (values s)"
    and t: "t \<in> set (pour_adds s (i, values s ! i))"
    by (auto simp add: in_set_enumerate_eq)
  from t have nz: "values s ! i \<noteq> 0" by (auto simp add: pour_adds_def split: if_splits)
  from t nz obtain j where j: "j < length (values s)"
    and tj: "t \<in> set (pour_into_adds s i (values s ! i) (j, values s ! j))"
    by (auto simp add: pour_adds_def in_set_enumerate_eq)
  show "t \<in> ?R"
    using tj i j nz by (auto simp add: pour_into_adds_pour split: if_splits)
next
  fix t assume "t \<in> ?R"
  then obtain i j where ij: "i < length (values s)" "j < length (values s)" "i \<noteq> j"
    "values s ! i \<noteq> 0" "0 \<le> constraints s ! j - values s ! j" "t = pour s i j"
    by blast
  have pi: "(i, values s ! i) \<in> set (enumerate 0 (values s))"
    using ij by (simp add: in_set_enumerate_eq)
  have pj: "(j, values s ! j) \<in> set (enumerate 0 (values s))"
    using ij by (simp add: in_set_enumerate_eq)
  have "t \<in> set (pour_into_adds s i (values s ! i) (j, values s ! j))"
    using ij by (simp add: pour_into_adds_pour)
  then have "t \<in> set (pour_adds s (i, values s ! i))"
    using ij pj by (auto simp add: pour_adds_def)
  then show "t \<in> ?L" using pi by blast
qed

lemma set_neighbor_adds: "set (neighbor_adds s) = moves s"
  unfolding neighbor_adds_def moves_def
  using set_empty_fill_adds [of s] set_pour_adds [of s]
  by simp

lemma set_iteration_remdups: "set_iteration remdups"
  by (simp add: set_iteration_def)

lemma values_with_values: "values (with_values s t) = t"
  by (simp add: with_values_def)

lemma get_neighbors_moves:
  assumes "set_iteration iter" "length (values s) \<le> length (constraints s)"
  shows "\<exists>ns. get_neighbors iter s = Inr ns \<and> set ns = with_values s ` moves s
           \<and> distinct (map values ns)"
proof -
  let ?ns = "map (with_values s) (iter (neighbor_adds s))"
  have it: "set (iter (neighbor_adds s)) = moves s" "distinct (iter (neighbor_adds s))"
    using assms(1) set_neighbor_adds [of s] by (simp_all add: set_iteration_def)
  have "map values ?ns = iter (neighbor_adds s)"
    by (simp add: comp_def values_with_values)
  then have "distinct (map values ?ns)" using it by simp
  moreover have "set ?ns = with_values s ` moves s" using it by simp
  ultimately show ?thesis using get_neighbors_adds [OF assms(2)] by blast
qed

lemma pour_nth:
  assumes "i < length (values s)" "j < length (values s)" "i \<noteq> j" "k < length (values s)"
  shows "pour s i j ! k =
     (if k = i then values s ! i - min (values s ! i) (constraints s ! j - values s ! j)
      else if k = j then values s ! j + min (values s ! i) (constraints s ! j - values s ! j)
      else values s ! k)"
  using assms by (auto simp add: pour_def Let_def nth_list_update)

lemma length_pour: "length (pour s i j) = length (values s)"
  by (simp add: pour_def Let_def)

lemma moves_invariant:
  assumes inv: "capacity_invariant s" and t: "t \<in> moves s"
  shows "capacity_invariant (with_values s t)"
proof -
  have len: "length (values s) = length (constraints s)"
    and rng: "\<And>k. k < length (values s) \<Longrightarrow> 0 \<le> values s ! k \<and> values s ! k \<le> constraints s ! k"
    using inv by (simp_all add: capacity_invariant_def)
  from t consider i where "i < length (values s)" "t = (values s)[i := 0]"
    | i where "i < length (values s)" "t = (values s)[i := constraints s ! i]"
    | i j where "i < length (values s)" "j < length (values s)" "i \<noteq> j"
        "0 \<le> constraints s ! j - values s ! j" "t = pour s i j"
    unfolding moves_def by blast
  then show ?thesis
  proof cases
    case 1
    have "\<forall>k < length (values s). 0 \<le> t ! k \<and> t ! k \<le> constraints s ! k"
    proof (intro allI impI)
      fix k assume k: "k < length (values s)"
      show "0 \<le> t ! k \<and> t ! k \<le> constraints s ! k"
        using rng [OF k] rng [OF 1(1)] k 1 by (cases "k = i") (simp_all add: nth_list_update)
    qed
    then show ?thesis using 1 len by (simp add: capacity_invariant_def with_values_def)
  next
    case 2
    have "\<forall>k < length (values s). 0 \<le> t ! k \<and> t ! k \<le> constraints s ! k"
    proof (intro allI impI)
      fix k assume k: "k < length (values s)"
      show "0 \<le> t ! k \<and> t ! k \<le> constraints s ! k"
        using rng [OF k] rng [OF 2(1)] k 2 by (cases "k = i") (simp_all add: nth_list_update)
    qed
    then show ?thesis using 2 len by (simp add: capacity_invariant_def with_values_def)
  next
    case 3
    have "\<forall>k < length (values s). 0 \<le> t ! k \<and> t ! k \<le> constraints s ! k"
    proof (intro allI impI)
      fix k assume k: "k < length (values s)"
      have "t ! k = (if k = i then values s ! i - min (values s ! i) (constraints s ! j - values s ! j)
        else if k = j then values s ! j + min (values s ! i) (constraints s ! j - values s ! j)
        else values s ! k)"
        using pour_nth [OF 3(1) 3(2) 3(3) k] 3(5) by simp
      then show "0 \<le> t ! k \<and> t ! k \<le> constraints s ! k"
        using rng [OF k] rng [OF 3(1)] rng [OF 3(2)] 3(4) by (auto simp add: min_def)
    qed
    then show ?thesis using 3 len by (simp add: capacity_invariant_def with_values_def length_pour)
  qed
qed

lemma capacity_indexable: "capacity_invariant s \<Longrightarrow> indexable s"
  by (simp add: capacity_invariant_def indexable_def)

lemma moves_length: "t \<in> moves s \<Longrightarrow> length t = length (values s)"
  unfolding moves_def by (auto simp add: length_pour)

lemma finite_moves: "finite (moves s)"
  using set_neighbor_adds [of s] finite_set [of "neighbor_adds s"] by simp

lemma empty_fill_loop_raises:
  "\<exists>p \<in> set ps. \<not> fst p < length (constraints s) \<Longrightarrow> \<exists>e. empty_fill_loop s ps acc = Inl e"
proof (induction ps arbitrary: acc)
  case Nil
  then show ?case by simp
next
  case (Cons p ps)
  obtain i val where p: "p = (i, val)" by (cases p)
  show ?case
  proof (cases "i < length (constraints s)")
    case True
    then have "\<exists>p \<in> set ps. \<not> fst p < length (constraints s)" using Cons.prems p by simp
    then show ?thesis using Cons.IH True by (simp add: p subscript_def Let_def)
  next
    case False
    then show ?thesis by (simp add: p subscript_def Let_def)
  qed
qed

lemma get_neighbors_raises:
  assumes "\<not> indexable s"
  shows "\<exists>e. get_neighbors iter s = Inl e"
proof -
  let ?i = "length (constraints s)"
  have "?i < length (values s)" using assms by (simp add: indexable_def)
  then have "(?i, values s ! ?i) \<in> set (enumerate 0 (values s))"
    by (simp add: in_set_enumerate_eq)
  then have "\<exists>p \<in> set (enumerate 0 (values s)). \<not> fst p < length (constraints s)"
    by force
  then obtain e where "empty_fill_loop s (enumerate 0 (values s)) [] = Inl e"
    using empty_fill_loop_raises by blast
  then show ?thesis by (simp add: get_neighbors_def)
qed

text \<open>
  C4.  On a configuration that satisfies the capacity invariant (as many levels as
  capacities, and \<open>0 \<le> values[i] \<le> constraints[i]\<close> for every bucket), \<open>get_neighbors\<close>
  raises nothing, and every state it returns satisfies the capacity invariant, whatever
  the order in which the set of tuples is iterated.
\<close>

theorem get_neighbors_capacity_invariant:
  assumes "set_iteration iter" "capacity_invariant s"
  shows "\<exists>ns. get_neighbors iter s = Inr ns \<and> (\<forall>n \<in> set ns. capacity_invariant n)"
proof -
  have "length (values s) \<le> length (constraints s)"
    using assms(2) by (simp add: capacity_invariant_def)
  then obtain ns where ns: "get_neighbors iter s = Inr ns" "set ns = with_values s ` moves s"
    using get_neighbors_moves [OF assms(1)] by blast
  have "\<forall>n \<in> set ns. capacity_invariant n"
    using ns(2) moves_invariant [OF assms(2)] by auto
  then show ?thesis using ns(1) by blast
qed

lemma capacity_invariant_example_full: "capacity_invariant example_full"
  by (simp add: capacity_invariant_def example_full_def less_Suc_eq)

theorem get_neighbors_capacity_invariant_witness:
  "set_iteration remdups \<and> capacity_invariant example_full
   \<and> (\<exists>ns. get_neighbors remdups example_full = Inr ns \<and> (\<forall>n \<in> set ns. capacity_invariant n))"
  using get_neighbors_capacity_invariant [OF set_iteration_remdups capacity_invariant_example_full]
    set_iteration_remdups capacity_invariant_example_full
  by simp

lemma self_in_moves:
  assumes inv: "capacity_invariant s"
  shows "values s \<in> moves s \<longleftrightarrow>
     (\<exists>i j. i < length (values s) \<and> j < length (values s) \<and> i \<noteq> j
        \<and> values s ! i \<noteq> 0 \<and> values s ! j = constraints s ! j)"
proof
  have rng: "\<And>k. k < length (values s) \<Longrightarrow> 0 \<le> values s ! k \<and> values s ! k \<le> constraints s ! k"
    using inv by (simp add: capacity_invariant_def)
  assume "values s \<in> moves s"
  then consider i where "i < length (values s)" "values s ! i \<noteq> 0" "values s = (values s)[i := 0]"
    | i where "i < length (values s)" "values s ! i \<noteq> constraints s ! i"
        "values s = (values s)[i := constraints s ! i]"
    | i j where "i < length (values s)" "j < length (values s)" "i \<noteq> j" "values s ! i \<noteq> 0"
        "0 \<le> constraints s ! j - values s ! j" "values s = pour s i j"
    unfolding moves_def by blast
  then show "\<exists>i j. i < length (values s) \<and> j < length (values s) \<and> i \<noteq> j
        \<and> values s ! i \<noteq> 0 \<and> values s ! j = constraints s ! j"
  proof cases
    case 1
    have "values s ! i = 0" by (metis 1(1) 1(3) nth_list_update_eq)
    then show ?thesis using 1(2) by simp
  next
    case 2
    have "values s ! i = constraints s ! i" by (metis 2(1) 2(3) nth_list_update_eq)
    then show ?thesis using 2(2) by simp
  next
    case 3
    have "pour s i j ! j = values s ! j" using 3(6) by metis
    then have "min (values s ! i) (constraints s ! j - values s ! j) = 0"
      using pour_nth [OF 3(1) 3(2) 3(3) 3(2)] 3(3) by simp
    then have "values s ! j = constraints s ! j"
      using rng [OF 3(1)] 3(4) by (simp add: min_def split: if_splits)
    then show ?thesis using 3 by blast
  qed
next
  have rng: "\<And>k. k < length (values s) \<Longrightarrow> 0 \<le> values s ! k \<and> values s ! k \<le> constraints s ! k"
    using inv by (simp add: capacity_invariant_def)
  assume "\<exists>i j. i < length (values s) \<and> j < length (values s) \<and> i \<noteq> j
        \<and> values s ! i \<noteq> 0 \<and> values s ! j = constraints s ! j"
  then obtain i j where ij: "i < length (values s)" "j < length (values s)" "i \<noteq> j"
    "values s ! i \<noteq> 0" "values s ! j = constraints s ! j" by blast
  have "min (values s ! i) (constraints s ! j - values s ! j) = 0"
    using rng [OF ij(1)] ij(5) by simp
  then have "pour s i j = values s" by (simp add: pour_def)
  moreover have "pour s i j \<in> moves s"
    unfolding moves_def using ij by (intro UnI2 CollectI exI [of _ i] exI [of _ j]) simp
  ultimately show "values s \<in> moves s" by simp
qed

text \<open>
  With both buckets full, \<open>(5, 3)\<close> of capacities \<open>(5, 3)\<close>, pouring one bucket into
  the other moves no water, and \<open>get_neighbors\<close> returns the configuration itself.
\<close>

theorem get_neighbors_self_counterexample:
  "capacity_invariant example_full
   \<and> (\<exists>ns. get_neighbors remdups example_full = Inr ns
         \<and> (\<exists>n \<in> set ns. values n = values example_full))"
  by (simp add: capacity_invariant_example_full)
     (simp add: example_full_def get_neighbors_def enumerate_eq_zip subscript_def replace_def
        with_values_def)

text \<open>
  C3, as the code has it.  On a configuration that satisfies the capacity invariant,
  \<open>get_neighbors\<close> returns a state with the configuration's own levels exactly when
  there are two different buckets, the first not empty and the second full: the pour of
  the first into the second moves no water and is added all the same (the guard of line
  56 is \<open>space_left >= 0\<close>).  In every other case no neighbour has the levels of the
  configuration.
\<close>

theorem get_neighbors_self:
  assumes "set_iteration iter" "capacity_invariant s"
  shows "\<exists>ns. get_neighbors iter s = Inr ns
     \<and> ((\<exists>n \<in> set ns. values n = values s) \<longleftrightarrow>
          (\<exists>i j. i < length (values s) \<and> j < length (values s) \<and> i \<noteq> j
             \<and> values s ! i \<noteq> 0 \<and> values s ! j = constraints s ! j))"
proof -
  have "length (values s) \<le> length (constraints s)"
    using assms(2) by (simp add: capacity_invariant_def)
  then obtain ns where ns: "get_neighbors iter s = Inr ns" "set ns = with_values s ` moves s"
    using get_neighbors_moves [OF assms(1)] by blast
  have "(\<exists>n \<in> set ns. values n = values s) \<longleftrightarrow> values s \<in> moves s"
    using ns(2) by (auto simp add: values_with_values)
  then show ?thesis using ns(1) self_in_moves [OF assms(2)] by simp
qed

theorem get_neighbors_self_witness:
  "set_iteration remdups \<and> capacity_invariant example_full
   \<and> (\<exists>ns. get_neighbors remdups example_full = Inr ns
     \<and> ((\<exists>n \<in> set ns. values n = values example_full) \<longleftrightarrow>
          (\<exists>i j. i < length (values example_full) \<and> j < length (values example_full) \<and> i \<noteq> j
             \<and> values example_full ! i \<noteq> 0
             \<and> values example_full ! j = constraints example_full ! j)))"
  using get_neighbors_self [OF set_iteration_remdups capacity_invariant_example_full]
    set_iteration_remdups capacity_invariant_example_full
  by simp

section \<open>Properties of argmax\<close>

lemma argmax_loop_max:
  fixes func :: "'a \<Rightarrow> 'b::linorder"
  shows "(\<forall>x \<in> set xs. func x \<le> func (argmax_loop func xs arg (func arg)))
         \<and> (argmax_loop func xs arg (func arg) = arg
            \<or> (\<exists>k < length xs. xs ! k = argmax_loop func xs arg (func arg)
                  \<and> func arg < func (xs ! k)
                  \<and> (\<forall>j < k. func (xs ! j) < func (xs ! k))))"
proof (induction xs arbitrary: arg)
  case Nil
  then show ?case by simp
next
  case (Cons i rest)
  show ?case
  proof (cases "func i > func arg")
    case True
    let ?r = "argmax_loop func rest i (func i)"
    have step: "argmax_loop func (i # rest) arg (func arg) = ?r"
      using True by simp
    have ih: "(\<forall>x \<in> set rest. func x \<le> func ?r)
         \<and> (?r = i \<or> (\<exists>k < length rest. rest ! k = ?r \<and> func i < func (rest ! k)
                  \<and> (\<forall>j < k. func (rest ! j) < func (rest ! k))))"
      using Cons.IH [of i] by simp
    have ge: "func i \<le> func ?r" using ih by auto
    have c: "\<exists>k < length (i # rest). (i # rest) ! k = ?r \<and> func arg < func ((i # rest) ! k)
                  \<and> (\<forall>j < k. func ((i # rest) ! j) < func ((i # rest) ! k))"
    proof (cases "?r = i")
      case True
      then show ?thesis using \<open>func arg < func i\<close> by (intro exI [of _ 0]) simp
    next
      case False
      then obtain k where k: "k < length rest" "rest ! k = ?r" "func i < func (rest ! k)"
        "\<forall>j < k. func (rest ! j) < func (rest ! k)" using ih by blast
      have "\<forall>j < Suc k. func ((i # rest) ! j) < func ((i # rest) ! Suc k)"
      proof (intro allI impI)
        fix j assume "j < Suc k"
        then show "func ((i # rest) ! j) < func ((i # rest) ! Suc k)"
          using k by (cases j) auto
      qed
      then show ?thesis using k True by (intro exI [of _ "Suc k"]) auto
    qed
    show ?thesis using ih ge c step by simp
  next
    case False
    let ?r = "argmax_loop func rest arg (func arg)"
    have step: "argmax_loop func (i # rest) arg (func arg) = ?r"
      using False by simp
    have ih: "(\<forall>x \<in> set rest. func x \<le> func ?r)
         \<and> (?r = arg \<or> (\<exists>k < length rest. rest ! k = ?r \<and> func arg < func (rest ! k)
                  \<and> (\<forall>j < k. func (rest ! j) < func (rest ! k))))"
      using Cons.IH [of arg] by simp
    have ge: "func arg \<le> func ?r" using ih by auto
    then have gi: "func i \<le> func ?r" using False by simp
    have c: "?r = arg \<or> (\<exists>k < length (i # rest). (i # rest) ! k = ?r \<and> func arg < func ((i # rest) ! k)
                  \<and> (\<forall>j < k. func ((i # rest) ! j) < func ((i # rest) ! k)))"
    proof (cases "?r = arg")
      case True
      then show ?thesis by simp
    next
      case False
      then obtain k where k: "k < length rest" "rest ! k = ?r" "func arg < func (rest ! k)"
        "\<forall>j < k. func (rest ! j) < func (rest ! k)" using ih by blast
      have "\<forall>j < Suc k. func ((i # rest) ! j) < func ((i # rest) ! Suc k)"
      proof (intro allI impI)
        fix j assume "j < Suc k"
        then show "func ((i # rest) ! j) < func ((i # rest) ! Suc k)"
          using k \<open>\<not> func arg < func i\<close> by (cases j) auto
      qed
      then show ?thesis using k by (intro disjI2 exI [of _ "Suc k"]) auto
    qed
    show ?thesis using ih gi c step by simp
  qed
qed

text \<open>
  C9.  On an empty domain \<open>argmax\<close> raises the \<open>IndexError\<close> with the message
  "domain is empty:".  On every other domain it returns an element of the domain at which
  the function is greatest, and of the elements that attain the greatest value it returns
  the first one: every element before it has a strictly smaller value.
\<close>

theorem argmax_first_maximum:
  fixes func :: "'a \<Rightarrow> 'b::linorder"
  shows "argmax [] func = Inl (IndexError ''domain is empty:'')
     \<and> (domain \<noteq> [] \<longrightarrow>
          (\<exists>a k. argmax domain func = Inr a \<and> k < length domain \<and> domain ! k = a
             \<and> (\<forall>x \<in> set domain. func x \<le> func a)
             \<and> (\<forall>j < k. func (domain ! j) < func a)))"
proof (intro conjI impI)
  show "argmax [] func = Inl (IndexError ''domain is empty:'')"
    by (simp add: argmax_def)
next
  assume ne: "domain \<noteq> []"
  let ?r = "argmax_loop func domain (domain ! 0) (func (domain ! 0))"
  have res: "argmax domain func = Inr ?r" using ne by (simp add: argmax_def)
  have m: "\<forall>x \<in> set domain. func x \<le> func ?r"
    using argmax_loop_max [of domain func "domain ! 0"] by blast
  have "?r = domain ! 0 \<or> (\<exists>k < length domain. domain ! k = ?r
                  \<and> (\<forall>j < k. func (domain ! j) < func (domain ! k)))"
    using argmax_loop_max [of domain func "domain ! 0"] by blast
  then have "\<exists>k < length domain. domain ! k = ?r \<and> (\<forall>j < k. func (domain ! j) < func ?r)"
  proof
    assume "?r = domain ! 0"
    then show ?thesis using ne by (intro exI [of _ 0]) simp
  next
    assume "\<exists>k < length domain. domain ! k = ?r
                  \<and> (\<forall>j < k. func (domain ! j) < func (domain ! k))"
    then show ?thesis by auto
  qed
  then show "\<exists>a k. argmax domain func = Inr a \<and> k < length domain \<and> domain ! k = a
             \<and> (\<forall>x \<in> set domain. func x \<le> func a)
             \<and> (\<forall>j < k. func (domain ! j) < func a)"
    using res m by blast
qed

theorem argmax_first_maximum_witness:
  "[3, 7, 5, 7::int] \<noteq> []
   \<and> (\<exists>a k. argmax [3, 7, 5, 7::int] (\<lambda>x. x div 2) = Inr a
          \<and> k < length [3, 7, 5, 7::int] \<and> [3, 7, 5, 7::int] ! k = a
          \<and> (\<forall>x \<in> set [3, 7, 5, 7::int]. x div 2 \<le> a div 2)
          \<and> (\<forall>j < k. ([3, 7, 5, 7::int] ! j) div 2 < a div 2))"
  using argmax_first_maximum [of "\<lambda>x::int. x div 2" "[3, 7, 5, 7::int]"]
  by simp

section \<open>The fill move\<close>

lemma fill_in_moves:
  assumes inv: "capacity_invariant s" and i: "i < length (values s)"
    and ne: "values s ! i \<noteq> constraints s ! i"
  shows "(values s)[i := constraints s ! i] \<in> moves s \<longleftrightarrow> allow_refills s"
proof
  let ?t = "(values s)[i := constraints s ! i]"
  have rng: "\<And>k. k < length (values s) \<Longrightarrow> 0 \<le> values s ! k \<and> values s ! k \<le> constraints s ! k"
    using inv by (simp add: capacity_invariant_def)
  have ti: "?t ! i = constraints s ! i" using i by simp
  have tk: "\<And>k. k \<noteq> i \<Longrightarrow> ?t ! k = values s ! k" by simp
  assume "?t \<in> moves s"
  then consider k where "k < length (values s)" "values s ! k \<noteq> 0" "?t = (values s)[k := 0]"
    | k where "k < length (values s)" "allow_refills s" "?t = (values s)[k := constraints s ! k]"
    | k j where "k < length (values s)" "j < length (values s)" "k \<noteq> j" "values s ! k \<noteq> 0"
        "0 \<le> constraints s ! j - values s ! j" "?t = pour s k j"
    unfolding moves_def by blast
  then show "allow_refills s"
  proof cases
    case 1
    have tk0: "?t ! k = 0" by (metis 1(1) 1(3) nth_list_update_eq)
    show ?thesis
    proof (cases "k = i")
      case True
      then have "constraints s ! i = 0" using tk0 ti by simp
      then have "values s ! i = 0" using rng [OF i] by simp
      then show ?thesis using 1(2) True by simp
    next
      case False
      then show ?thesis using tk0 tk [of k] 1(2) by simp
    qed
  next
    case 2
    then show ?thesis by simp
  next
    case 3
    let ?m = "min (values s ! k) (constraints s ! j - values s ! j)"
    have pk: "?t ! k = values s ! k - ?m"
      using pour_nth [OF 3(1) 3(2) 3(3) 3(1)] 3(6) by simp
    have pj: "?t ! j = values s ! j + ?m"
      using pour_nth [OF 3(1) 3(2) 3(3) 3(2)] 3(3) 3(6) by simp
    have "?m = 0"
    proof (cases "k = i")
      case True
      then have "j \<noteq> i" using 3(3) by simp
      then show ?thesis using pj tk [of j] by simp
    next
      case False
      then show ?thesis using pk tk [of k] by simp
    qed
    then have "pour s k j = values s" by (simp add: pour_def)
    then have "?t = values s" using 3(6) by simp
    then have "?t ! i = values s ! i" by simp
    then show ?thesis using ti ne by simp
  qed
next
  assume "allow_refills s"
  then show "(values s)[i := constraints s ! i] \<in> moves s"
    unfolding moves_def using i ne by blast
qed

lemma pour_gains:
  assumes inv: "capacity_invariant s"
    and jk: "j < length (values s)" "k < length (values s)" "j \<noteq> k"
    and nz: "values s ! k \<noteq> 0" and room: "values s ! j < constraints s ! j"
  shows "pour s k j \<in> moves s \<and> values s ! j < pour s k j ! j"
proof -
  have rng: "\<And>k. k < length (values s) \<Longrightarrow> 0 \<le> values s ! k \<and> values s ! k \<le> constraints s ! k"
    using inv by (simp add: capacity_invariant_def)
  have "pour s k j \<in> moves s"
    unfolding moves_def using jk nz room
    by (intro UnI2 CollectI exI [of _ k] exI [of _ j]) simp
  moreover have "0 < min (values s ! k) (constraints s ! j - values s ! j)"
    using rng [OF jk(2)] nz room by simp
  then have "values s ! j < pour s k j ! j"
    using pour_nth [OF jk(2) jk(1) _ jk(1)] jk(3) by simp
  ultimately show ?thesis ..
qed

text \<open>
  C7.  On a configuration that satisfies the capacity invariant, and for every bucket
  \<open>i\<close>: \<open>get_neighbors\<close> returns the neighbour that differs from the configuration by
  bucket \<open>i\<close> filled to its capacity if and only if \<open>allow_refills\<close> is true and
  \<open>values[i] \<noteq> constraints[i]\<close>.  So without refills no neighbour is a fill; and with
  or without them a bucket \<open>j\<close> that is not full gains water in some neighbour as soon as
  another bucket is not empty (the pour into \<open>j\<close>).
\<close>

theorem get_neighbors_fill:
  assumes "set_iteration iter" "capacity_invariant s" "i < length (values s)"
  shows "\<exists>ns. get_neighbors iter s = Inr ns
     \<and> ((\<exists>n \<in> set ns. values n = (values s)[i := constraints s ! i] \<and> values n \<noteq> values s)
          \<longleftrightarrow> (allow_refills s \<and> values s ! i \<noteq> constraints s ! i))
     \<and> (\<forall>j k. j < length (values s) \<and> k < length (values s) \<and> j \<noteq> k
            \<and> values s ! k \<noteq> 0 \<and> values s ! j < constraints s ! j
          \<longrightarrow> (\<exists>n \<in> set ns. values s ! j < values n ! j))"
proof -
  let ?t = "(values s)[i := constraints s ! i]"
  have "length (values s) \<le> length (constraints s)"
    using assms(2) by (simp add: capacity_invariant_def)
  then obtain ns where ns: "get_neighbors iter s = Inr ns" "set ns = with_values s ` moves s"
    using get_neighbors_moves [OF assms(1)] by blast
  have mem: "\<And>t. (\<exists>n \<in> set ns. values n = t) \<longleftrightarrow> t \<in> moves s"
    using ns(2) by (auto simp add: values_with_values)
  have neq: "?t \<noteq> values s \<longleftrightarrow> values s ! i \<noteq> constraints s ! i"
    by (metis assms(3) list_update_id nth_list_update_eq)
  have "(\<exists>n \<in> set ns. values n = ?t \<and> values n \<noteq> values s)
          \<longleftrightarrow> (?t \<in> moves s \<and> values s ! i \<noteq> constraints s ! i)"
    using mem [of ?t] neq by auto
  then have a: "(\<exists>n \<in> set ns. values n = ?t \<and> values n \<noteq> values s)
          \<longleftrightarrow> (allow_refills s \<and> values s ! i \<noteq> constraints s ! i)"
    using fill_in_moves [OF assms(2) assms(3)] by blast
  have b: "\<forall>j k. j < length (values s) \<and> k < length (values s) \<and> j \<noteq> k
            \<and> values s ! k \<noteq> 0 \<and> values s ! j < constraints s ! j
          \<longrightarrow> (\<exists>n \<in> set ns. values s ! j < values n ! j)"
  proof (intro allI impI)
    fix j k
    assume h: "j < length (values s) \<and> k < length (values s) \<and> j \<noteq> k
            \<and> values s ! k \<noteq> 0 \<and> values s ! j < constraints s ! j"
    then have "pour s k j \<in> moves s \<and> values s ! j < pour s k j ! j"
      using pour_gains [OF assms(2)] by blast
    moreover from this obtain n where "n \<in> set ns" "values n = pour s k j"
      using mem [of "pour s k j"] by blast
    ultimately show "\<exists>n \<in> set ns. values s ! j < values n ! j"
      by (intro bexI [of _ n]) simp_all
  qed
  show ?thesis using ns(1) a b by blast
qed

lemma capacity_invariant_example_no_refills: "capacity_invariant example_no_refills"
  by (simp add: capacity_invariant_def example_no_refills_def less_Suc_eq)

theorem get_neighbors_fill_witness:
  "set_iteration remdups \<and> capacity_invariant example_no_refills
   \<and> 1 < length (values example_no_refills)
   \<and> (\<exists>ns. get_neighbors remdups example_no_refills = Inr ns
     \<and> ((\<exists>n \<in> set ns. values n = (values example_no_refills)[1 := constraints example_no_refills ! 1]
            \<and> values n \<noteq> values example_no_refills)
          \<longleftrightarrow> (allow_refills example_no_refills
                \<and> values example_no_refills ! 1 \<noteq> constraints example_no_refills ! 1))
     \<and> (\<forall>j k. j < length (values example_no_refills) \<and> k < length (values example_no_refills)
            \<and> j \<noteq> k \<and> values example_no_refills ! k \<noteq> 0
            \<and> values example_no_refills ! j < constraints example_no_refills ! j
          \<longrightarrow> (\<exists>n \<in> set ns. values example_no_refills ! j < values n ! j)))"
proof -
  have i: "1 < length (values example_no_refills)" by (simp add: example_no_refills_def)
  show ?thesis
    using get_neighbors_fill [OF set_iteration_remdups capacity_invariant_example_no_refills i]
      set_iteration_remdups capacity_invariant_example_no_refills i
    by simp
qed

section \<open>A search that starts at a goal\<close>

lemma empty_tuple_in_iff:
  "empty_tuple_in hash al = (if \<exists>k \<in> dom (map_of al). hash k = hash []
     then Some (AttributeError ''values'') else None)"
  by (auto simp add: empty_tuple_in_def list_ex_iff dom_map_of_conv_image_fst)

lemma unravel_initial:
  assumes "hash (values s) \<noteq> hash []"
  shows "unravel_bfs hash s [(values s, Sentinel)] = Some (Inr [Sentinel, Node s])"
proof -
  have e: "empty_tuple_in hash [(values s, Sentinel)] = None"
    using assms by (simp add: empty_tuple_in_def)
  have "unravel_loop hash [(values s, Sentinel)] ([Node s] @ [Sentinel])
      = Some (Inr [Node s, Sentinel])"
    using e by (subst unravel_loop.simps) simp
  then have "unravel_loop hash [(values s, Sentinel)] [Node s] = Some (Inr [Node s, Sentinel])"
    by (subst unravel_loop.simps) simp
  then show ?thesis by (simp add: unravel_bfs_def)
qed

lemma bfs_start_goal:
  assumes "is_goal s" "hash (values s) \<noteq> hash []"
  shows "breadth_first_search iter hash s = Some (Inr [Sentinel, Node s])"
  unfolding breadth_first_search_def
  by (subst bfs_loop.simps) (simp add: assms unravel_initial)

lemma tuple_hash_example_solved: "tuple_hash (values example_solved) \<noteq> tuple_hash []"
  unfolding example_solved_def by code_simp

text \<open>
  From \<open>(0, 0)\<close> with target \<open>0\<close> the search returns two elements, the empty tuple and
  the state, and not the one-element list of the state.
\<close>

theorem bfs_initial_goal_counterexample:
  "is_goal example_solved
   \<and> breadth_first_search remdups tuple_hash example_solved
       = Some (Inr [Sentinel, Node example_solved])
   \<and> breadth_first_search remdups tuple_hash example_solved \<noteq> Some (Inr [Node example_solved])"
proof -
  have g: "is_goal example_solved" by (simp add: is_goal_def example_solved_def)
  then show ?thesis using bfs_start_goal [OF g tuple_hash_example_solved, of remdups] by simp
qed

text \<open>
  C2, as the code has it.  For every initial state that satisfies \<open>is_goal\<close> and whose
  tuple of levels does not have the hash of the empty tuple, \<open>breadth_first_search\<close>
  returns the list of two elements: the empty tuple recorded as the predecessor of the
  initial state, then that state.  \<open>puzzle_difficulty\<close> is \<open>2\<close>.
\<close>

theorem bfs_initial_goal:
  assumes "is_goal s" "hash (values s) \<noteq> hash []"
  shows "breadth_first_search iter hash s = Some (Inr [Sentinel, Node s])
         \<and> puzzle_difficulty iter hash s = Some (Inr 2)"
  using bfs_start_goal [OF assms, of iter] by (simp add: puzzle_difficulty_def)

theorem bfs_initial_goal_witness:
  "is_goal example_solved \<and> tuple_hash (values example_solved) \<noteq> tuple_hash []
   \<and> breadth_first_search remdups tuple_hash example_solved
       = Some (Inr [Sentinel, Node example_solved])
   \<and> puzzle_difficulty remdups tuple_hash example_solved = Some (Inr 2)"
proof -
  have g: "is_goal example_solved" by (simp add: is_goal_def example_solved_def)
  show ?thesis
    using bfs_initial_goal [OF g tuple_hash_example_solved, of remdups] g
      tuple_hash_example_solved
    by simp
qed

section \<open>The loop over the neighbours\<close>

lemma map_of_snoc:
  "map_of (al @ [(k, v)]) x = (case map_of al x of Some y \<Rightarrow> Some y | None \<Rightarrow> if x = k then Some v else None)"
  by (simp add: map_add_def split: option.splits)

lemma foldl_visit:
  "distinct (map values ns) \<Longrightarrow>
   foldl (visit st) (al, Q) ns =
     (al @ discoveries st (filter (\<lambda>i. map_of al (values i) = None) ns),
      Q @ filter (\<lambda>i. map_of al (values i) = None) ns)"
proof (induction ns arbitrary: al Q)
  case Nil
  then show ?case by (simp add: discoveries_def)
next
  case (Cons i ns)
  have d: "distinct (map values ns)" and ni: "values i \<notin> values ` set ns"
    using Cons.prems by simp_all
  have ni': "\<And>j. j \<in> set ns \<Longrightarrow> values j \<noteq> values i"
    using ni by (metis imageI)
  show ?case
  proof (cases "map_of al (values i) = None")
    case True
    let ?al1 = "al @ [(values i, Node st)]"
    have f: "filter (\<lambda>j. map_of ?al1 (values j) = None) ns
        = filter (\<lambda>j. map_of al (values j) = None) ns"
      using ni' by (intro filter_cong) (auto simp add: map_of_snoc split: option.splits)
    have fi: "filter (\<lambda>j. map_of al (values j) = None) (i # ns)
        = i # filter (\<lambda>j. map_of al (values j) = None) ns"
      using True by simp
    have "foldl (visit st) (al, Q) (i # ns) = foldl (visit st) (?al1, Q @ [i]) ns"
      using True by simp
    also have "\<dots> = (?al1 @ discoveries st (filter (\<lambda>j. map_of ?al1 (values j) = None) ns),
        (Q @ [i]) @ filter (\<lambda>j. map_of ?al1 (values j) = None) ns)"
      by (rule Cons.IH [OF d])
    also have "\<dots> = (al @ discoveries st (filter (\<lambda>j. map_of al (values j) = None) (i # ns)),
        Q @ filter (\<lambda>j. map_of al (values j) = None) (i # ns))"
      unfolding f fi by (simp add: discoveries_def)
    finally show ?thesis .
  next
    case False
    have fi: "filter (\<lambda>j. map_of al (values j) = None) (i # ns)
        = filter (\<lambda>j. map_of al (values j) = None) ns"
      by (simp add: False)
    have "foldl (visit st) (al, Q) (i # ns) = foldl (visit st) (al, Q) ns"
      by (simp add: False)
    also have "\<dots> = (al @ discoveries st (filter (\<lambda>j. map_of al (values j) = None) ns),
        Q @ filter (\<lambda>j. map_of al (values j) = None) ns)"
      by (rule Cons.IH [OF d])
    also have "\<dots> = (al @ discoveries st (filter (\<lambda>j. map_of al (values j) = None) (i # ns)),
        Q @ filter (\<lambda>j. map_of al (values j) = None) (i # ns))"
      unfolding fi by simp
    finally show ?thesis .
  qed
qed

lemma map_of_discoveries:
  "map_of (discoveries p new) k = (if k \<in> values ` set new then Some (Node p) else None)"
  by (induction new) (auto simp add: discoveries_def)

lemma map_of_discover:
  assumes "values ` set new = {k \<in> moves p. map_of al k = None}"
  shows "map_of (al @ discoveries p new) = discover p (map_of al)"
proof
  fix k
  show "map_of (al @ discoveries p new) k = discover p (map_of al) k"
    using assms
    by (auto simp add: map_add_def map_of_discoveries discover_def split: option.splits)
qed

section \<open>The space of configurations\<close>

lemma with_values_self: "with_values s (values s) = s"
  by (simp add: with_values_def)

lemma with_values_again: "with_values (with_values s u) v = with_values s v"
  by (simp add: with_values_def)

lemma constraints_with_values: "constraints (with_values s v) = constraints s"
  by (simp add: with_values_def)

lemma capacity_invariant_space:
  "capacity_invariant (with_values s v) \<longleftrightarrow> v \<in> space (constraints s)"
  by (simp add: capacity_invariant_def space_def with_values_def)

lemma space_Nil: "space [] = {[]}"
  by (auto simp add: space_def)

lemma space_Cons: "space (c # cs) = (\<lambda>(x, xs). x # xs) ` ({0..c} \<times> space cs)"
proof (intro set_eqI iffI)
  fix v assume v: "v \<in> space (c # cs)"
  then obtain x xs where vx: "v = x # xs" by (cases v) (auto simp add: space_def)
  have len: "length xs = length cs" using v vx by (simp add: space_def)
  have all: "\<forall>i < Suc (length xs). 0 \<le> (x # xs) ! i \<and> (x # xs) ! i \<le> (c # cs) ! i"
    using v vx by (simp add: space_def)
  have x: "x \<in> {0..c}" using all by (auto dest: spec [of _ 0])
  have "\<forall>i < length xs. 0 \<le> xs ! i \<and> xs ! i \<le> cs ! i"
  proof (intro allI impI)
    fix i assume "i < length xs"
    then show "0 \<le> xs ! i \<and> xs ! i \<le> cs ! i"
      using all by (auto dest: spec [of _ "Suc i"])
  qed
  then have "xs \<in> space cs" using len by (simp add: space_def)
  then show "v \<in> (\<lambda>(x, xs). x # xs) ` ({0..c} \<times> space cs)" using x vx by auto
next
  fix v assume "v \<in> (\<lambda>(x, xs). x # xs) ` ({0..c} \<times> space cs)"
  then obtain x xs where vx: "v = x # xs" "0 \<le> x" "x \<le> c" "xs \<in> space cs" by auto
  have "\<forall>i < Suc (length xs). 0 \<le> (x # xs) ! i \<and> (x # xs) ! i \<le> (c # cs) ! i"
  proof (intro allI impI)
    fix i assume "i < Suc (length xs)"
    then show "0 \<le> (x # xs) ! i \<and> (x # xs) ! i \<le> (c # cs) ! i"
      using vx by (cases i) (auto simp add: space_def)
  qed
  then show "v \<in> space (c # cs)" using vx by (simp add: space_def)
qed

lemma finite_card_space:
  "finite (space cs) \<and> card (space cs) = prod_list (map (\<lambda>c. nat (c + 1)) cs)"
proof (induction cs)
  case Nil
  then show ?case by (simp add: space_Nil)
next
  case (Cons c cs)
  have inj: "inj_on (\<lambda>(x, xs). x # xs) ({0..c} \<times> space cs)"
    by (auto simp add: inj_on_def)
  have "card (space (c # cs)) = card ({0..c} \<times> space cs)"
    unfolding space_Cons using inj by (rule card_image)
  also have "\<dots> = nat (c + 1) * card (space cs)"
    by (simp add: card_cartesian_product)
  finally have "card (space (c # cs)) = prod_list (map (\<lambda>c. nat (c + 1)) (c # cs))"
    using Cons.IH by simp
  moreover have "finite (space (c # cs))"
    unfolding space_Cons using Cons.IH by simp
  ultimately show ?case by simp
qed

section \<open>Reachable configurations and their distance\<close>

lemma reach_space:
  assumes "capacity_invariant s0" "reach s0 n v"
  shows "v \<in> space (constraints s0)"
  using assms(2)
proof (induction rule: reach.induct)
  case reach_start
  then show ?case
    using assms(1) capacity_invariant_space [of s0 "values s0"] by (simp add: with_values_self)
next
  case (reach_move n u v)
  have "capacity_invariant (with_values s0 u)"
    using reach_move.IH by (simp add: capacity_invariant_space)
  then have "capacity_invariant (with_values (with_values s0 u) v)"
    using reach_move.hyps(2) by (rule moves_invariant)
  then show ?case by (simp add: with_values_again capacity_invariant_space)
qed

lemma reachable_space:
  "capacity_invariant s0 \<Longrightarrow> reachable s0 \<subseteq> space (constraints s0)"
  using reach_space by (auto simp add: reachable_def)

lemma reachable_start: "values s0 \<in> reachable s0"
  using reach_start by (auto simp add: reachable_def)

lemma reachable_move:
  "u \<in> reachable s0 \<Longrightarrow> v \<in> moves (with_values s0 u) \<Longrightarrow> v \<in> reachable s0"
  unfolding reachable_def by (blast intro: reach_move)

lemma reach_distance: "v \<in> reachable s0 \<Longrightarrow> reach s0 (distance s0 v) v"
  unfolding reachable_def distance_def by (auto intro: LeastI)

lemma distance_le: "reach s0 n v \<Longrightarrow> distance s0 v \<le> n"
  unfolding distance_def by (rule Least_le)

lemma reach_0: "reach s0 0 v \<Longrightarrow> v = values s0"
  by (cases rule: reach.cases) auto

lemma distance_start: "distance s0 (values s0) = 0"
  using distance_le [OF reach_start] by simp

lemma distance_0: "v \<in> reachable s0 \<Longrightarrow> distance s0 v = 0 \<Longrightarrow> v = values s0"
  using reach_distance [of v s0] reach_0 by simp

lemma distance_move:
  assumes "u \<in> reachable s0" "v \<in> moves (with_values s0 u)"
  shows "distance s0 v \<le> Suc (distance s0 u)"
  using distance_le [OF reach_move [OF reach_distance [OF assms(1)] assms(2)]] .

lemma distance_pred:
  assumes "v \<in> reachable s0" "distance s0 v = Suc n"
  shows "\<exists>u. u \<in> reachable s0 \<and> distance s0 u = n \<and> v \<in> moves (with_values s0 u)"
proof -
  have "reach s0 (Suc n) v" using reach_distance [OF assms(1)] assms(2) by simp
  then obtain u where u: "reach s0 n u" "v \<in> moves (with_values s0 u)"
    by (cases rule: reach.cases) auto
  have ur: "u \<in> reachable s0" using u(1) by (auto simp add: reachable_def)
  have "distance s0 u \<le> n" using u(1) by (rule distance_le)
  moreover have "Suc n \<le> Suc (distance s0 u)"
    using distance_move [OF ur u(2)] assms(2) by simp
  ultimately have "distance s0 u = n" by simp
  then show ?thesis using ur u(2) by blast
qed

lemma reach_length: "reach s0 n v \<Longrightarrow> length v = length (values s0)"
proof (induction rule: reach.induct)
  case reach_start
  then show ?case by simp
next
  case (reach_move n u v)
  then show ?case using moves_length [of v "with_values s0 u"] by (simp add: values_with_values)
qed

lemma reachable_indexable:
  assumes "indexable s0" "v \<in> reachable s0"
  shows "indexable (with_values s0 v)"
proof -
  obtain n where "reach s0 n v" using assms(2) by (auto simp add: reachable_def)
  then have "length v = length (values s0)" by (rule reach_length)
  then show ?thesis using assms(1) by (simp add: indexable_def with_values_def)
qed

lemma finite_within: "finite {v. \<exists>n \<le> m. reach s0 n v}"
proof (induction m)
  case 0
  have "{v. \<exists>n \<le> 0. reach s0 n v} \<subseteq> {values s0}" using reach_0 by auto
  then show ?case by (rule finite_subset) simp
next
  case (Suc m)
  let ?B = "{v. \<exists>n \<le> m. reach s0 n v}"
  have "{v. \<exists>n \<le> Suc m. reach s0 n v} \<subseteq> ?B \<union> (\<Union>u \<in> ?B. moves (with_values s0 u))"
  proof
    fix v assume "v \<in> {v. \<exists>n \<le> Suc m. reach s0 n v}"
    then obtain n where n: "n \<le> Suc m" "reach s0 n v" by blast
    show "v \<in> ?B \<union> (\<Union>u \<in> ?B. moves (with_values s0 u))"
    proof (cases n)
      case 0
      then show ?thesis using n by blast
    next
      case (Suc k)
      then have "reach s0 (Suc k) v" using n(2) by simp
      then obtain u where "reach s0 k u" "v \<in> moves (with_values s0 u)"
        by (cases rule: reach.cases) auto
      then show ?thesis using n(1) Suc by auto
    qed
  qed
  moreover have "finite (?B \<union> (\<Union>u \<in> ?B. moves (with_values s0 u)))"
    using Suc.IH finite_moves by simp
  ultimately show ?case by (rule finite_subset)
qed

lemma near_start: "values s0 \<in> near s0"
  by (simp add: near_def reachable_start distance_start)

lemma finite_near_goal:
  assumes "g \<in> reachable s0" "is_goal (with_values s0 g)"
  shows "finite (near s0)"
proof -
  have "near s0 \<subseteq> {v. \<exists>n \<le> Suc (distance s0 g). reach s0 n v}"
  proof
    fix v assume v: "v \<in> near s0"
    then have "distance s0 v \<le> Suc (distance s0 g)" using assms by (simp add: near_def)
    moreover have "reach s0 (distance s0 v) v" using v reach_distance by (simp add: near_def)
    ultimately show "v \<in> {v. \<exists>n \<le> Suc (distance s0 g). reach s0 n v}" by blast
  qed
  then show ?thesis using finite_within by (rule finite_subset)
qed

lemma finite_near_valid:
  assumes "capacity_invariant s0"
  shows "finite (near s0)"
proof -
  have sub: "near s0 \<subseteq> space (constraints s0)"
    using reachable_space [OF assms] by (auto simp add: near_def)
  have fin: "finite (space (constraints s0))" using finite_card_space by simp
  show ?thesis using finite_subset [OF sub fin] .
qed

section \<open>The invariant of the search\<close>

lemma discover_keeps: "E k \<noteq> None \<Longrightarrow> discover p E k = E k"
  by (simp add: discover_def)

lemma discover_not_None: "E k \<noteq> None \<Longrightarrow> discover p E k \<noteq> None"
  by (simp add: discover_def)

lemma discover_moves: "k \<in> moves p \<Longrightarrow> discover p E k \<noteq> None"
  by (simp add: discover_def)

lemma discover_new: "E k = None \<Longrightarrow> discover p E k \<noteq> None \<Longrightarrow> k \<in> moves p"
  by (simp add: discover_def split: if_splits)

lemma foldl_visit_neighbors:
  assumes "set_iteration iter" "length (values p) \<le> length (constraints p)"
    and "get_neighbors iter p = Inr ns"
  shows "\<exists>new. foldl (visit p) (al, rest) ns = (al @ discoveries p new, rest @ new)
     \<and> distinct (map values new)
     \<and> values ` set new = {k \<in> moves p. map_of al k = None}
     \<and> (\<forall>i \<in> set new. i = with_values p (values i))"
proof -
  obtain ns' where ns': "get_neighbors iter p = Inr ns'" "set ns' = with_values p ` moves p"
    "distinct (map values ns')"
    using get_neighbors_moves [OF assms(1) assms(2)] by blast
  have ns: "set ns = with_values p ` moves p" "distinct (map values ns)"
    using ns' assms(3) by simp_all
  let ?new = "filter (\<lambda>i. map_of al (values i) = None) ns"
  have vs: "values ` set ns = moves p"
    using ns(1) by (auto simp add: values_with_values image_iff)
  have "foldl (visit p) (al, rest) ns = (al @ discoveries p ?new, rest @ ?new)"
    using foldl_visit [OF ns(2), of p al rest] .
  moreover have "distinct (map values ?new)"
    using ns(2) by (simp add: distinct_map_filter)
  moreover have "values ` set ?new = {k \<in> moves p. map_of al k = None}"
    using vs by auto
  moreover have "\<forall>i \<in> set ?new. i = with_values p (values i)"
    using ns(1) by (auto simp add: values_with_values)
  ultimately show ?thesis by blast
qed

lemma queue_head_least:
  assumes "queue_invariant s0 E (p # rest)" "q \<in> set (p # rest)"
  shows "distance s0 (values p) \<le> distance s0 (values q)"
  using assms by (auto simp add: queue_invariant_def)

lemma new_distance:
  assumes T: "tree_invariant s0 E" and Qi: "queue_invariant s0 E (p # rest)"
    and C: "closed_invariant s0 E (p # rest)"
    and k: "k \<in> moves p" "E k = None"
  shows "k \<in> reachable s0 \<and> distance s0 k = Suc (distance s0 (values p))"
proof -
  have p: "p = with_values s0 (values p)" "E (values p) \<noteq> None"
    using Qi by (simp_all add: queue_invariant_def)
  have pr: "values p \<in> reachable s0" using T p(2) by (simp add: tree_invariant_def)
  have km: "k \<in> moves (with_values s0 (values p))" using k(1) p(1) by simp
  have kr: "k \<in> reachable s0" using reachable_move [OF pr km] .
  have le: "distance s0 k \<le> Suc (distance s0 (values p))" using distance_move [OF pr km] .
  have "\<not> distance s0 k \<le> distance s0 (values p)"
  proof
    assume lt: "distance s0 k \<le> distance s0 (values p)"
    have "E (values s0) = Some Sentinel" using T by (simp add: tree_invariant_def)
    then have "k \<noteq> values s0" using k(2) by auto
    then have "distance s0 k \<noteq> 0" using distance_0 [OF kr] by blast
    then obtain m where m: "distance s0 k = Suc m" by (cases "distance s0 k") simp_all
    obtain u where u: "u \<in> reachable s0" "distance s0 u = m" "k \<in> moves (with_values s0 u)"
      using distance_pred [OF kr m] by blast
    have ul: "distance s0 u < distance s0 (values p)" using u(2) m lt by simp
    have "E u \<noteq> None"
      using C u(1) ul by (simp add: closed_invariant_def)
    moreover have "u \<notin> values ` set (p # rest)"
    proof
      assume "u \<in> values ` set (p # rest)"
      then obtain q where q: "q \<in> set (p # rest)" "u = values q" by blast
      show False using queue_head_least [OF Qi q(1)] ul q(2) by simp
    qed
    ultimately have "\<forall>v \<in> moves (with_values s0 u). E v \<noteq> None"
      using C by (simp add: closed_invariant_def)
    then show False using u(3) k(2) by blast
  qed
  then show ?thesis using kr le by simp
qed

lemma tree_step:
  assumes T: "tree_invariant s0 E" and Qi: "queue_invariant s0 E (p # rest)"
    and C: "closed_invariant s0 E (p # rest)"
  shows "tree_invariant s0 (discover p E)"
proof -
  have p: "p = with_values s0 (values p)" "E (values p) \<noteq> None"
    using Qi by (simp_all add: queue_invariant_def)
  have a: "discover p E (values s0) = Some Sentinel"
    using T by (simp add: tree_invariant_def discover_def)
  have b: "\<forall>k. discover p E k = Some Sentinel \<longrightarrow> k = values s0"
    using T by (simp add: tree_invariant_def discover_def split: if_splits)
  have c: "\<forall>k p'. discover p E k = Some (Node p') \<longrightarrow>
             p' = with_values s0 (values p') \<and> discover p E (values p') \<noteq> None \<and> k \<in> moves p'
             \<and> distance s0 k = Suc (distance s0 (values p'))"
  proof (intro allI impI)
    fix k p' assume h: "discover p E k = Some (Node p')"
    show "p' = with_values s0 (values p') \<and> discover p E (values p') \<noteq> None \<and> k \<in> moves p'
             \<and> distance s0 k = Suc (distance s0 (values p'))"
    proof (cases "E k = None")
      case True
      then have km: "k \<in> moves p" and pp: "p' = p"
        using h by (simp_all add: discover_def split: if_splits)
      show ?thesis
        using new_distance [OF T Qi C km True] p km pp discover_not_None [of E "values p" p] by simp
    next
      case False
      then have "E k = Some (Node p')" using h False discover_keeps [of E k p] by simp
      then have "p' = with_values s0 (values p') \<and> E (values p') \<noteq> None \<and> k \<in> moves p'
             \<and> distance s0 k = Suc (distance s0 (values p'))"
        using T by (simp add: tree_invariant_def)
      then show ?thesis using discover_not_None [of E "values p'" p] by simp
    qed
  qed
  have d: "\<forall>k. discover p E k \<noteq> None \<longrightarrow> k \<in> reachable s0"
  proof (intro allI impI)
    fix k assume h: "discover p E k \<noteq> None"
    show "k \<in> reachable s0"
    proof (cases "E k = None")
      case True
      then show ?thesis using new_distance [OF T Qi C discover_new [OF True h] True] by simp
    next
      case False
      then show ?thesis using T by (simp add: tree_invariant_def)
    qed
  qed
  show ?thesis unfolding tree_invariant_def by (intro conjI a b c d)
qed

lemma sorted_map_const: "\<forall>x \<in> set xs. f x = (c::nat) \<Longrightarrow> sorted (map f xs)"
  by (induction xs) simp_all

lemma queue_step:
  assumes T: "tree_invariant s0 E" and Qi: "queue_invariant s0 E (p # rest)"
    and C: "closed_invariant s0 E (p # rest)"
    and new: "distinct (map values new)" "values ` set new = {k \<in> moves p. E k = None}"
      "\<forall>i \<in> set new. i = with_values p (values i)"
  shows "queue_invariant s0 (discover p E) (rest @ new)
     \<and> (\<forall>q \<in> set (rest @ new). distance s0 (values p) \<le> distance s0 (values q)
            \<and> distance s0 (values q) \<le> Suc (distance s0 (values p)))"
proof -
  let ?d = "\<lambda>q. distance s0 (values q)"
  have p: "p = with_values s0 (values p)" "E (values p) \<noteq> None"
    using Qi by (simp_all add: queue_invariant_def)
  have rest1: "\<forall>q \<in> set rest. q = with_values s0 (values q) \<and> E (values q) \<noteq> None"
    using Qi by (simp add: queue_invariant_def)
  have rest2: "distinct (map values rest)"
    using Qi by (simp add: queue_invariant_def)
  have rest3: "sorted (map ?d rest)"
    using Qi by (simp add: queue_invariant_def)
  have rest4: "\<forall>q \<in> set rest. ?d p \<le> ?d q \<and> ?d q \<le> Suc (?d p)"
    using Qi by (simp add: queue_invariant_def)
  note rest = rest1 rest2 rest3 rest4
  have newk: "\<And>i. i \<in> set new \<Longrightarrow> values i \<in> moves p \<and> E (values i) = None"
    using new(2) by blast
  have newd: "\<forall>i \<in> set new. ?d i = Suc (?d p)"
    using new_distance [OF T Qi C] newk by blast
  have a: "\<forall>q \<in> set (rest @ new). q = with_values s0 (values q) \<and> discover p E (values q) \<noteq> None"
  proof
    fix q assume "q \<in> set (rest @ new)"
    then consider "q \<in> set rest" | "q \<in> set new" by auto
    then show "q = with_values s0 (values q) \<and> discover p E (values q) \<noteq> None"
    proof cases
      case 1
      then show ?thesis using rest(1) discover_not_None [of E "values q" p] by blast
    next
      case 2
      have "q = with_values p (values q)" using new(3) 2 by blast
      then have "q = with_values (with_values s0 (values p)) (values q)" using p(1) by simp
      then have "q = with_values s0 (values q)" by (simp add: with_values_again)
      then show ?thesis using discover_moves [of "values q" p E] newk [OF 2] by blast
    qed
  qed
  have b: "distinct (map values (rest @ new))"
  proof -
    have "values ` set rest \<inter> values ` set new = {}"
    proof (rule ccontr)
      assume "values ` set rest \<inter> values ` set new \<noteq> {}"
      then obtain q i where "q \<in> set rest" "i \<in> set new" "values q = values i" by auto
      then show False using rest(1) newk [of i] by auto
    qed
    then show ?thesis using rest(2) new(1) by simp
  qed
  have c: "sorted (map ?d (rest @ new))"
    using rest(3) rest(4) sorted_map_const [OF newd] newd
    by (simp add: sorted_append)
  have e: "\<forall>q \<in> set (rest @ new). ?d p \<le> ?d q \<and> ?d q \<le> Suc (?d p)"
    using rest(4) newd by auto
  have f: "\<forall>q \<in> set (rest @ new). ?d q \<le> Suc (?d (hd (rest @ new)))"
  proof
    fix q assume q: "q \<in> set (rest @ new)"
    then have "rest @ new \<noteq> []" by auto
    then have "hd (rest @ new) \<in> set (rest @ new)" by (rule hd_in_set)
    then have "?d p \<le> ?d (hd (rest @ new))" using e by blast
    moreover have "?d q \<le> Suc (?d p)" using e q by blast
    ultimately show "?d q \<le> Suc (?d (hd (rest @ new)))" by simp
  qed
  show ?thesis unfolding queue_invariant_def by (intro conjI a b c e f)
qed

lemma closed_expanded:
  assumes "closed_invariant s0 E Q" "E k \<noteq> None" "k \<notin> values ` set Q"
  shows "\<not> is_goal (with_values s0 k) \<and> (\<forall>v \<in> moves (with_values s0 k). E v \<noteq> None)"
  using assms by (simp add: closed_invariant_def)

lemma closed_near:
  assumes "closed_invariant s0 E Q" "v \<in> reachable s0" "Q \<noteq> []"
    "distance s0 v \<le> distance s0 (values (hd Q))"
  shows "E v \<noteq> None"
  using assms by (simp add: closed_invariant_def)

lemma queue_sorted_head:
  assumes "queue_invariant s0 E Q" "q \<in> set Q"
  shows "distance s0 (values (hd Q)) \<le> distance s0 (values q)"
proof (cases Q)
  case Nil
  then show ?thesis using assms(2) by simp
next
  case (Cons h t)
  then show ?thesis using queue_head_least [of s0 E h t q] assms by simp
qed

lemma closed_step:
  assumes T: "tree_invariant s0 E" and Qi: "queue_invariant s0 E (p # rest)"
    and C: "closed_invariant s0 E (p # rest)" and ng: "\<not> is_goal p"
    and new: "values ` set new = {k \<in> moves p. E k = None}"
    and Qn: "queue_invariant s0 (discover p E) (rest @ new)"
    and span: "\<forall>q \<in> set (rest @ new). distance s0 (values q) \<le> Suc (distance s0 (values p))"
  shows "closed_invariant s0 (discover p E) (rest @ new)"
proof -
  let ?E' = "discover p E"
  let ?Q' = "rest @ new"
  have p: "p = with_values s0 (values p)" "E (values p) \<noteq> None"
    using Qi by (simp_all add: queue_invariant_def)
  have one: "\<And>k. ?E' k \<noteq> None \<Longrightarrow> k \<notin> values ` set ?Q' \<Longrightarrow>
      \<not> is_goal (with_values s0 k) \<and> (\<forall>v \<in> moves (with_values s0 k). ?E' v \<noteq> None)"
  proof -
    fix k assume k: "?E' k \<noteq> None" "k \<notin> values ` set ?Q'"
    show "\<not> is_goal (with_values s0 k) \<and> (\<forall>v \<in> moves (with_values s0 k). ?E' v \<noteq> None)"
    proof (cases "k = values p")
      case True
      then have "with_values s0 k = p" using p(1) by simp
      then show ?thesis using ng discover_moves [of _ p E] by simp
    next
      case False
      have ek: "E k \<noteq> None"
      proof
        assume n: "E k = None"
        then have "k \<in> moves p" using discover_new [OF n k(1)] by simp
        then have "k \<in> values ` set new" using new n by simp
        then show False using k(2) by auto
      qed
      have "k \<notin> values ` set (p # rest)" using False k(2) by auto
      then have "\<not> is_goal (with_values s0 k) \<and> (\<forall>v \<in> moves (with_values s0 k). E v \<noteq> None)"
        using closed_expanded [OF C ek] by simp
      then show ?thesis using discover_not_None [of E _ p] by blast
    qed
  qed
  have two: "\<And>v. v \<in> reachable s0 \<Longrightarrow> ?Q' \<noteq> [] \<Longrightarrow>
      distance s0 v \<le> distance s0 (values (hd ?Q')) \<Longrightarrow> ?E' v \<noteq> None"
  proof -
    fix v assume v: "v \<in> reachable s0" "?Q' \<noteq> []"
      "distance s0 v \<le> distance s0 (values (hd ?Q'))"
    have hdin: "hd ?Q' \<in> set ?Q'" using v(2) by (rule hd_in_set)
    have hdle: "distance s0 (values (hd ?Q')) \<le> Suc (distance s0 (values p))"
      using span hdin by blast
    show "?E' v \<noteq> None"
    proof (cases "distance s0 v \<le> distance s0 (values p)")
      case True
      have "E v \<noteq> None" using closed_near [OF C v(1)] True by simp
      then show ?thesis by (rule discover_not_None)
    next
      case False
      then have dv: "distance s0 v = Suc (distance s0 (values p))"
        and dh: "distance s0 (values (hd ?Q')) = Suc (distance s0 (values p))"
        using v(3) hdle by simp_all
      obtain u where u: "u \<in> reachable s0" "distance s0 u = distance s0 (values p)"
        "v \<in> moves (with_values s0 u)"
        using distance_pred [OF v(1) dv] by blast
      have "E u \<noteq> None" using closed_near [OF C u(1)] u(2) by simp
      then have eu: "?E' u \<noteq> None" by (rule discover_not_None)
      have "u \<notin> values ` set ?Q'"
      proof
        assume "u \<in> values ` set ?Q'"
        then obtain q where q: "q \<in> set ?Q'" "u = values q" by blast
        show False using queue_sorted_head [OF Qn q(1)] dh u(2) q(2) by simp
      qed
      then show ?thesis using one [OF eu] u(3) by blast
    qed
  qed
  show ?thesis unfolding closed_invariant_def using one two by blast
qed

lemma bfs_invariant_start: "bfs_invariant s0 [values s0 \<mapsto> Sentinel] [s0]"
proof -
  let ?E = "[values s0 \<mapsto> Sentinel]"
  have T: "tree_invariant s0 ?E"
    unfolding tree_invariant_def using reachable_start [of s0]
    by (simp split: if_splits)
  have Q: "queue_invariant s0 ?E [s0]"
    unfolding queue_invariant_def by (simp add: with_values_self)
  have c2: "\<And>v. v \<in> reachable s0 \<Longrightarrow> distance s0 v \<le> distance s0 (values s0) \<Longrightarrow> ?E v \<noteq> None"
  proof -
    fix v assume "v \<in> reachable s0" "distance s0 v \<le> distance s0 (values s0)"
    then have "v = values s0" using distance_0 [of v s0] by (simp add: distance_start)
    then show "?E v \<noteq> None" by simp
  qed
  have C: "closed_invariant s0 ?E [s0]"
    unfolding closed_invariant_def using c2 by (simp split: if_splits)
  show ?thesis unfolding bfs_invariant_def using T Q C by simp
qed

lemma queue_state_indexable:
  assumes "indexable s0" "tree_invariant s0 E" "queue_invariant s0 E Q" "q \<in> set Q"
  shows "indexable q"
proof -
  have q: "q = with_values s0 (values q)" "E (values q) \<noteq> None"
    using assms(3) assms(4) by (simp_all add: queue_invariant_def)
  have "values q \<in> reachable s0" using assms(2) q(2) by (simp add: tree_invariant_def)
  then have "indexable (with_values s0 (values q))" using reachable_indexable [OF assms(1)] by simp
  then show ?thesis using q(1) by simp
qed

lemma bfs_invariant_step:
  assumes it: "set_iteration iter" and v0: "indexable s0"
    and I: "bfs_invariant s0 (map_of al) (p # rest)" and ng: "\<not> is_goal p"
  shows "\<exists>ns new. get_neighbors iter p = Inr ns
     \<and> foldl (visit p) (al, rest) ns = (al @ discoveries p new, rest @ new)
     \<and> map_of (al @ discoveries p new) = discover p (map_of al)
     \<and> bfs_invariant s0 (discover p (map_of al)) (rest @ new)
     \<and> distinct (map values new) \<and> values ` set new = {k \<in> moves p. map_of al k = None}"
proof -
  let ?E = "map_of al"
  have T: "tree_invariant s0 ?E" and Qi: "queue_invariant s0 ?E (p # rest)"
    and C: "closed_invariant s0 ?E (p # rest)"
    using I by (simp_all add: bfs_invariant_def)
  have "indexable p" using queue_state_indexable [OF v0 T Qi] by simp
  then have len: "length (values p) \<le> length (constraints p)"
    by (simp add: indexable_def)
  obtain ns where ns: "get_neighbors iter p = Inr ns"
    using get_neighbors_moves [OF it len] by blast
  obtain new where new: "foldl (visit p) (al, rest) ns = (al @ discoveries p new, rest @ new)"
    "distinct (map values new)" "values ` set new = {k \<in> moves p. ?E k = None}"
    "\<forall>i \<in> set new. i = with_values p (values i)"
    using foldl_visit_neighbors [OF it len ns, of al rest] by blast
  have m: "map_of (al @ discoveries p new) = discover p ?E" using map_of_discover [OF new(3)] .
  have T': "tree_invariant s0 (discover p ?E)" using tree_step [OF T Qi C] .
  have qs: "queue_invariant s0 (discover p ?E) (rest @ new)
     \<and> (\<forall>q \<in> set (rest @ new). distance s0 (values p) \<le> distance s0 (values q)
            \<and> distance s0 (values q) \<le> Suc (distance s0 (values p)))"
    using queue_step [OF T Qi C new(2) new(3) new(4)] .
  then have Q': "queue_invariant s0 (discover p ?E) (rest @ new)"
    and span: "\<forall>q \<in> set (rest @ new). distance s0 (values q) \<le> Suc (distance s0 (values p))"
    by simp_all
  have C': "closed_invariant s0 (discover p ?E) (rest @ new)"
    using closed_step [OF T Qi C ng new(3) Q' span] .
  have "bfs_invariant s0 (discover p ?E) (rest @ new)"
    unfolding bfs_invariant_def using T' Q' C' by simp
  then show ?thesis using ns new(1) new(2) new(3) m by blast
qed

section \<open>Sequences of legal moves\<close>

lemma is_move_moves:
  assumes "set_iteration iter" "indexable s"
  shows "is_move iter s t \<longleftrightarrow> t \<in> with_values s ` moves s"
proof -
  have "length (values s) \<le> length (constraints s)"
    using assms(2) by (simp add: indexable_def)
  then obtain ns where "get_neighbors iter s = Inr ns" "set ns = with_values s ` moves s"
    using get_neighbors_moves [OF assms(1)] by blast
  then show ?thesis by (simp add: is_move_def)
qed

lemma legal_path_snoc:
  "legal_path iter (xs @ [a, b]) \<longleftrightarrow> legal_path iter (xs @ [a]) \<and> is_move iter a b"
proof (induction xs)
  case Nil
  then show ?case by simp
next
  case (Cons x xs)
  then show ?case by (cases xs) auto
qed

lemma legal_path_reach:
  assumes it: "set_iteration iter" and v0: "indexable s0"
  shows "q \<noteq> [] \<Longrightarrow> hd q = s0 \<Longrightarrow> legal_path iter q \<Longrightarrow>
     reach s0 (length q - 1) (values (last q)) \<and> last q = with_values s0 (values (last q))"
proof (induction q rule: rev_induct)
  case Nil
  then show ?case by simp
next
  case (snoc x xs)
  show ?case
  proof (cases "xs = []")
    case True
    then have "x = s0" using snoc.prems by simp
    then show ?thesis using True reach_start [of s0] by (simp add: with_values_self)
  next
    case False
    then obtain ys a where xs: "xs = ys @ [a]" by (metis rev_exhaust)
    have lp: "legal_path iter (ys @ [a]) \<and> is_move iter a x"
      using snoc.prems(3) xs legal_path_snoc [of iter ys a x] by simp
    have hd: "hd xs = s0" using snoc.prems(2) False by simp
    have ih: "reach s0 (length xs - 1) (values a)" "a = with_values s0 (values a)"
      using snoc.IH [OF False hd] lp xs by simp_all
    have "values a \<in> reachable s0" using ih(1) by (auto simp add: reachable_def)
    then have "indexable (with_values s0 (values a))" using reachable_indexable [OF v0] by simp
    then have va: "indexable a" using ih(2) by simp
    obtain t where t: "t \<in> moves a" "x = with_values a t"
      using lp is_move_moves [OF it va, of x] by blast
    have xt: "x = with_values s0 t"
      using t(2) ih(2) with_values_again [of s0 "values a" t] by simp
    have "t \<in> moves (with_values s0 (values a))" using t(1) ih(2) by simp
    then have "reach s0 (Suc (length xs - 1)) t" using reach_move [OF ih(1)] by simp
    moreover have "Suc (length xs - 1) = length (xs @ [x]) - 1" using False by simp
    ultimately have "reach s0 (length (xs @ [x]) - 1) t" by simp
    then show ?thesis using xt by (simp add: values_with_values)
  qed
qed

section \<open>Following the predecessors\<close>

lemma unravel_chain:
  assumes it: "set_iteration iter" and v0: "indexable s0"
    and T: "tree_invariant s0 (map_of al)"
  shows "distance s0 (values s) = n \<Longrightarrow> s = with_values s0 (values s)
     \<Longrightarrow> map_of al (values s) \<noteq> None
     \<Longrightarrow> \<exists>c. unravel_loop hash al (pre @ [Node s])
            = (case empty_tuple_in hash al of
                 Some e \<Rightarrow> Some (Inl e)
               | None \<Rightarrow> Some (Inr (pre @ map Node c @ [Sentinel])))
          \<and> c \<noteq> [] \<and> hd c = s \<and> last c = s0 \<and> legal_path iter (rev c) \<and> length c = Suc n"
proof (induction n arbitrary: s pre)
  case 0
  have "values s \<in> reachable s0" using T 0(3) by (simp add: tree_invariant_def)
  then have vs: "values s = values s0" using distance_0 [of "values s" s0] 0(1) by simp
  then have e: "map_of al (values s) = Some Sentinel" using T by (simp add: tree_invariant_def)
  have s: "s = s0" using 0(2) vs by (simp add: with_values_self)
  have "unravel_loop hash al ((pre @ [Node s]) @ [Sentinel])
      = (case empty_tuple_in hash al of
           Some e \<Rightarrow> Some (Inl e)
         | None \<Rightarrow> Some (Inr ((pre @ [Node s]) @ [Sentinel])))"
    by (subst unravel_loop.simps) simp
  then have "unravel_loop hash al (pre @ [Node s])
      = (case empty_tuple_in hash al of
           Some e \<Rightarrow> Some (Inl e)
         | None \<Rightarrow> Some (Inr (pre @ map Node [s] @ [Sentinel])))"
    using e by (subst unravel_loop.simps) (simp split: option.splits)
  then show ?case using s by (intro exI [of _ "[s]"]) simp
next
  case (Suc m)
  obtain en where en: "map_of al (values s) = Some en" using Suc.prems(3) by blast
  have "en \<noteq> Sentinel"
  proof
    assume "en = Sentinel"
    then have "values s = values s0" using T en by (simp add: tree_invariant_def)
    then show False using Suc.prems(1) by (simp add: distance_start)
  qed
  then obtain p where p: "map_of al (values s) = Some (Node p)" using en by (cases en) simp_all
  have pf: "p = with_values s0 (values p) \<and> map_of al (values p) \<noteq> None \<and> values s \<in> moves p
             \<and> distance s0 (values s) = Suc (distance s0 (values p))"
    using T p by (simp add: tree_invariant_def)
  then have dp: "distance s0 (values p) = m" using Suc.prems(1) by simp
  obtain c where c: "unravel_loop hash al ((pre @ [Node s]) @ [Node p])
        = (case empty_tuple_in hash al of
             Some e \<Rightarrow> Some (Inl e)
           | None \<Rightarrow> Some (Inr ((pre @ [Node s]) @ map Node c @ [Sentinel])))"
    "c \<noteq> []" "hd c = p" "last c = s0" "legal_path iter (rev c)" "length c = Suc m"
    using Suc.IH [OF dp, of "pre @ [Node s]"] pf by blast
  have u: "unravel_loop hash al (pre @ [Node s])
      = (case empty_tuple_in hash al of
           Some e \<Rightarrow> Some (Inl e)
         | None \<Rightarrow> Some (Inr (pre @ map Node (s # c) @ [Sentinel])))"
    using p c(1) by (subst unravel_loop.simps) (simp split: option.splits)
  have "values p \<in> reachable s0" using T pf by (simp add: tree_invariant_def)
  then have "indexable (with_values s0 (values p))" using reachable_indexable [OF v0] by simp
  then have vp: "indexable p" using pf by simp
  have "s = with_values p (values s)"
    using Suc.prems(2) pf with_values_again [of s0 "values p" "values s"] by simp
  then have mv: "is_move iter p s" using is_move_moves [OF it vp, of s] pf by blast
  have rc: "rev c = rev (tl c) @ [p]" using c(2) c(3) by (cases c) simp_all
  have "legal_path iter (rev (tl c) @ [p, s])"
    using legal_path_snoc [of iter "rev (tl c)" p s] c(5) rc mv by simp
  then have lp: "legal_path iter (rev (s # c))" using rc by simp
  have "last (s # c) = s0" using c(2) c(4) by simp
  then show ?case using u lp c(6) by (intro exI [of _ "s # c"]) simp
qed

section \<open>The end of the search\<close>

lemma queue_empty_all_explored:
  assumes T: "tree_invariant s0 E" and C: "closed_invariant s0 E []"
  shows "reach s0 n v \<Longrightarrow> E v \<noteq> None"
proof (induction rule: reach.induct)
  case reach_start
  then show ?case using T by (simp add: tree_invariant_def)
next
  case (reach_move n u v)
  then show ?case using closed_expanded [OF C, of u] by simp
qed

lemma queue_empty_no_goal:
  assumes T: "tree_invariant s0 E" and C: "closed_invariant s0 E []" and v: "v \<in> reachable s0"
  shows "\<not> is_goal (with_values s0 v)"
proof -
  obtain n where "reach s0 n v" using v by (auto simp add: reachable_def)
  then have "E v \<noteq> None" using queue_empty_all_explored [OF T C] by simp
  then show ?thesis using closed_expanded [OF C, of v] by simp
qed

lemma first_goal_nearest:
  assumes Qi: "queue_invariant s0 E (p # rest)" and C: "closed_invariant s0 E (p # rest)"
    and v: "v \<in> reachable s0" "is_goal (with_values s0 v)"
  shows "distance s0 (values p) \<le> distance s0 v"
proof (rule ccontr)
  assume "\<not> distance s0 (values p) \<le> distance s0 v"
  then have lt: "distance s0 v < distance s0 (values p)" by simp
  have e: "E v \<noteq> None" using closed_near [OF C v(1)] lt by simp
  have "v \<notin> values ` set (p # rest)"
  proof
    assume "v \<in> values ` set (p # rest)"
    then obtain q where q: "q \<in> set (p # rest)" "v = values q" by blast
    show False using queue_head_least [OF Qi q(1)] lt q(2) by simp
  qed
  then show False using closed_expanded [OF C e] v(2) by simp
qed

section \<open>Termination and correctness of the loop\<close>

lemma dom_discover:
  assumes "values ` set new = {k \<in> moves p. E k = None}"
  shows "dom (discover p E) = dom E \<union> values ` set new"
  unfolding assms by (auto simp add: discover_def dom_def)

lemma card_discover:
  assumes "finite (dom E)" "distinct (map values new)"
    "values ` set new = {k \<in> moves p. E k = None}"
  shows "card (dom (discover p E)) = card (dom E) + length new"
proof -
  have d: "dom E \<inter> values ` set new = {}" unfolding assms(3) by auto
  have "card (values ` set new) = length new"
    using distinct_card [OF assms(2)] by simp
  then show ?thesis
    unfolding dom_discover [OF assms(3)]
    using card_Un_disjoint [OF assms(1) _ d] by simp
qed

lemma dom_bound:
  assumes "finite (near s0)" "dom E \<subseteq> near s0"
  shows "finite (dom E) \<and> card (dom E) \<le> card (near s0)"
  using finite_subset [OF assms(2) assms(1)] card_mono [OF assms(1) assms(2)] by simp

lemma near_step:
  assumes T: "tree_invariant s0 E" and Qi: "queue_invariant s0 E (p # rest)"
    and C: "closed_invariant s0 E (p # rest)" and N: "dom E \<subseteq> near s0"
    and new: "values ` set new = {k \<in> moves p. E k = None}"
  shows "dom (discover p E) \<subseteq> near s0"
proof
  fix k assume "k \<in> dom (discover p E)"
  then consider "k \<in> dom E" | "k \<in> moves p" "E k = None"
    unfolding dom_discover [OF new] using new by blast
  then show "k \<in> near s0"
  proof cases
    case 1
    then show ?thesis using N by blast
  next
    case 2
    have k: "k \<in> reachable s0" "distance s0 k = Suc (distance s0 (values p))"
      using new_distance [OF T Qi C 2] by simp_all
    have "\<forall>g \<in> reachable s0. is_goal (with_values s0 g) \<longrightarrow> distance s0 k \<le> Suc (distance s0 g)"
    proof (intro ballI impI)
      fix g assume "g \<in> reachable s0" "is_goal (with_values s0 g)"
      then have "distance s0 (values p) \<le> distance s0 g" by (rule first_goal_nearest [OF Qi C])
      then show "distance s0 k \<le> Suc (distance s0 g)" using k(2) by simp
    qed
    then show ?thesis using k(1) by (simp add: near_def)
  qed
qed

lemma bfs_loop_goal:
  assumes it: "set_iteration iter" and v0: "indexable s0"
    and I: "bfs_invariant s0 (map_of al) (p # rest)" and N: "dom (map_of al) \<subseteq> near s0"
    and g: "is_goal p"
  shows "bfs_post iter hash s0 (bfs_loop iter hash al (p # rest))"
proof -
  let ?E = "map_of al"
  have T: "tree_invariant s0 ?E" and Qi: "queue_invariant s0 ?E (p # rest)"
    and C: "closed_invariant s0 ?E (p # rest)"
    using I by (simp_all add: bfs_invariant_def)
  have p: "p = with_values s0 (values p)" "?E (values p) \<noteq> None"
    using Qi by (simp_all add: queue_invariant_def)
  obtain c where c: "unravel_loop hash al ([] @ [Node p])
        = (case empty_tuple_in hash al of
             Some e \<Rightarrow> Some (Inl e)
           | None \<Rightarrow> Some (Inr ([] @ map Node c @ [Sentinel])))"
    "c \<noteq> []" "hd c = p" "last c = s0" "legal_path iter (rev c)"
    "length c = Suc (distance s0 (values p))"
    using unravel_chain [OF it v0 T refl p(1) p(2), of hash "[]"] by blast
  have loop: "bfs_loop iter hash al (p # rest) = unravel_bfs hash p al"
    using g by (subst bfs_loop.simps) simp
  have a: "rev c \<noteq> []" "hd (rev c) = s0" "is_goal (last (rev c))"
    using c(2) c(3) c(4) g by (simp_all add: hd_rev last_rev)
  show ?thesis
  proof (cases "\<exists>k \<in> dom ?E. hash k = hash []")
    case True
    then have "empty_tuple_in hash al = Some (AttributeError ''values'')"
      by (simp add: empty_tuple_in_iff)
    then have "unravel_bfs hash p al = Some (Inl (AttributeError ''values''))"
      using c(1) by (simp add: unravel_bfs_def)
    then have r: "bfs_loop iter hash al (p # rest) = Some (Inl (AttributeError ''values''))"
      using loop by simp
    have k: "\<exists>k \<in> near s0. hash k = hash []" using True N by blast
    have e: "\<exists>q. q \<noteq> [] \<and> hd q = s0 \<and> legal_path iter q \<and> is_goal (last q)"
      using a c(5) by (intro exI [of _ "rev c"] conjI)
    show ?thesis unfolding bfs_post_def using r k e by blast
  next
    case False
    then have "empty_tuple_in hash al = None"
      by (simp add: empty_tuple_in_iff)
    then have "unravel_bfs hash p al = Some (Inr (Sentinel # map Node (rev c)))"
      using c(1) by (simp add: unravel_bfs_def rev_map)
    then have r: "bfs_loop iter hash al (p # rest) = Some (Inr (Sentinel # map Node (rev c)))"
      using loop by simp
    have b: "\<forall>v \<in> reachable s0. is_goal (with_values s0 v)
        \<longrightarrow> length (rev c) \<le> Suc (distance s0 v)"
      using first_goal_nearest [OF Qi C] c(6) by simp
    have "\<exists>q. bfs_loop iter hash al (p # rest) = Some (Inr (Sentinel # map Node q)) \<and> q \<noteq> []
           \<and> hd q = s0 \<and> legal_path iter q \<and> is_goal (last q)
           \<and> (\<forall>v \<in> reachable s0. is_goal (with_values s0 v) \<longrightarrow> length q \<le> Suc (distance s0 v))"
      using r a c(5) b by (intro exI [of _ "rev c"] conjI)
    then show ?thesis unfolding bfs_post_def by (rule disjI1)
  qed
qed

lemma bfs_loop_post:
  assumes it: "set_iteration iter" and v0: "indexable s0" and fin: "finite (near s0)"
  shows "bfs_invariant s0 (map_of al) Q \<Longrightarrow> dom (map_of al) \<subseteq> near s0
     \<Longrightarrow> bfs_post iter hash s0 (bfs_loop iter hash al Q)"
proof (induction "2 * (card (near s0) - card (dom (map_of al))) + length Q"
    arbitrary: al Q rule: less_induct)
  case less
  let ?E = "map_of al"
  have T: "tree_invariant s0 ?E" and Qi: "queue_invariant s0 ?E Q"
    and C: "closed_invariant s0 ?E Q"
    using less.prems(1) by (simp_all add: bfs_invariant_def)
  show ?case
  proof (cases Q)
    case Nil
    have "bfs_loop iter hash al [] = Some (Inr [])" by (subst bfs_loop.simps) simp
    moreover have "\<forall>v \<in> reachable s0. \<not> is_goal (with_values s0 v)"
      using queue_empty_no_goal [OF T] C Nil by blast
    ultimately show ?thesis unfolding bfs_post_def Nil by simp
  next
    case (Cons p rest)
    show ?thesis
    proof (cases "is_goal p")
      case True
      then show ?thesis
        using bfs_loop_goal [OF it v0 _ less.prems(2) True, of rest hash] less.prems(1) Cons
        by simp
    next
      case False
      have I: "bfs_invariant s0 ?E (p # rest)" using less.prems(1) Cons by simp
      obtain ns new where st: "get_neighbors iter p = Inr ns"
        "foldl (visit p) (al, rest) ns = (al @ discoveries p new, rest @ new)"
        "map_of (al @ discoveries p new) = discover p ?E"
        "bfs_invariant s0 (discover p ?E) (rest @ new)"
        "distinct (map values new)" "values ` set new = {k \<in> moves p. ?E k = None}"
        using bfs_invariant_step [OF it v0 I False] by blast
      let ?al' = "al @ discoveries p new"
      have unfold: "bfs_loop iter hash al (p # rest) = bfs_loop iter hash ?al' (rest @ new)"
        using False st(1) st(2) by (subst bfs_loop.simps) simp
      have N': "dom (discover p ?E) \<subseteq> near s0"
        using near_step [OF T _ _ less.prems(2) st(6)] Qi C Cons by simp
      have fd: "finite (dom ?E)" using dom_bound [OF fin less.prems(2)] by simp
      have cd: "card (dom (discover p ?E)) = card (dom ?E) + length new"
        using card_discover [OF fd st(5) st(6)] .
      have "card (dom (discover p ?E)) \<le> card (near s0)"
        using dom_bound [OF fin N'] by simp
      then have "2 * (card (near s0) - card (dom (map_of ?al'))) + length (rest @ new)
          < 2 * (card (near s0) - card (dom ?E)) + length Q"
        using cd Cons unfolding st(3) by simp
      moreover have "bfs_invariant s0 (map_of ?al') (rest @ new)" using st(4) unfolding st(3) .
      moreover have "dom (map_of ?al') \<subseteq> near s0" using N' unfolding st(3) .
      ultimately have "bfs_post iter hash s0 (bfs_loop iter hash ?al' (rest @ new))"
        using less.hyps by blast
      then show ?thesis using unfold Cons by simp
    qed
  qed
qed

lemma bfs_post_bounded:
  assumes "set_iteration iter" "indexable s0" "finite (near s0)"
  shows "bfs_post iter hash s0 (breadth_first_search iter hash s0)"
proof -
  have m: "map_of [(values s0, Sentinel)] = [values s0 \<mapsto> Sentinel]" by simp
  have "dom (map_of [(values s0, Sentinel)]) \<subseteq> near s0" using near_start [of s0] by simp
  moreover have "bfs_invariant s0 (map_of [(values s0, Sentinel)]) [s0]"
    unfolding m by (rule bfs_invariant_start)
  ultimately show ?thesis
    unfolding breadth_first_search_def using bfs_loop_post [OF assms] by blast
qed

lemma bfs_post_search:
  assumes "set_iteration iter" "capacity_invariant s0"
  shows "bfs_post iter hash s0 (breadth_first_search iter hash s0)"
  using bfs_post_bounded [OF assms(1) capacity_indexable [OF assms(2)] finite_near_valid [OF assms(2)]] .

section \<open>The example with capacities 5 and 3\<close>

lemma capacity_invariant_die_hard: "capacity_invariant example_die_hard"
  by (simp add: capacity_invariant_def example_die_hard_def less_Suc_eq)

lemma bfs_die_hard_remdups:
  "breadth_first_search remdups tuple_hash example_die_hard
     = Some (Inr (Sentinel # map Node die_hard_path))"
  by code_simp

lemma legal_die_hard_path: "legal_path remdups die_hard_path"
  by code_simp

lemma tuple_hash_within_5_3:
  "\<forall>a \<in> set [0..5]. \<forall>b \<in> set [0..3]. tuple_hash [a, b] \<noteq> tuple_hash []"
  by code_simp

lemma die_hard_no_collision:
  assumes "k \<in> near example_die_hard"
  shows "tuple_hash k \<noteq> tuple_hash []"
proof -
  have "k \<in> reachable example_die_hard" using assms by (simp add: near_def)
  then have "k \<in> space (constraints example_die_hard)"
    using reachable_space [OF capacity_invariant_die_hard] by blast
  then have sp: "k \<in> space [5, 3]" by (simp add: example_die_hard_def)
  then obtain a xs where k: "k = a # xs" "a \<in> {0..5}" "xs \<in> space [3]"
    unfolding space_Cons [of 5 "[3]"] by auto
  then obtain b ys where xs: "xs = b # ys" "b \<in> {0..3}" "ys \<in> space []"
    unfolding space_Cons [of 3 "[]"] by auto
  then have "k = [a, b]" using k by (simp add: space_Nil)
  moreover have "a \<in> set [0..5]" "b \<in> set [0..3]" using k(2) xs(2) by simp_all
  ultimately show ?thesis using tuple_hash_within_5_3 by blast
qed

section \<open>The search on solvable and unsolvable puzzles\<close>

lemma goal_path_reachable:
  assumes it: "set_iteration iter" and v0: "indexable s0"
    and q: "q \<noteq> []" "hd q = s0" "legal_path iter q" "is_goal (last q)"
  shows "values (last q) \<in> reachable s0 \<and> is_goal (with_values s0 (values (last q)))
     \<and> distance s0 (values (last q)) \<le> length q - 1"
proof -
  have r: "reach s0 (length q - 1) (values (last q))"
    and l: "last q = with_values s0 (values (last q))"
    using legal_path_reach [OF it v0 q(1) q(2) q(3)] by simp_all
  have "values (last q) \<in> reachable s0" using r by (auto simp add: reachable_def)
  moreover have "is_goal (with_values s0 (values (last q)))" using l q(4) by simp
  ultimately show ?thesis using distance_le [OF r] by simp
qed

lemma bfs_returns_path:
  assumes it: "set_iteration iter" and v0: "indexable s0" and fin: "finite (near s0)"
    and g: "g \<in> reachable s0" "is_goal (with_values s0 g)"
    and nc: "\<forall>k \<in> near s0. hash k \<noteq> hash []"
  shows "\<exists>p. breadth_first_search iter hash s0 = Some (Inr (Sentinel # map Node p))
     \<and> p \<noteq> [] \<and> hd p = s0 \<and> legal_path iter p \<and> is_goal (last p)
     \<and> (\<forall>v \<in> reachable s0. is_goal (with_values s0 v) \<longrightarrow> length p \<le> Suc (distance s0 v))"
proof -
  have a: "\<not> (\<exists>k \<in> near s0. hash k = hash [])" using nc by blast
  have b: "\<not> (\<forall>v \<in> reachable s0. \<not> is_goal (with_values s0 v))" using g by blast
  show ?thesis
    using bfs_post_bounded [OF it v0 fin, of hash] a b unfolding bfs_post_def by blast
qed

lemma bfs_shortest_indexable:
  assumes it: "set_iteration iter" and v0: "indexable s0"
    and q: "q \<noteq> []" "hd q = s0" "legal_path iter q" "is_goal (last q)"
    and nc: "\<forall>k \<in> near s0. hash k \<noteq> hash []"
  shows "\<exists>p. breadth_first_search iter hash s0 = Some (Inr (Sentinel # map Node p))
     \<and> p \<noteq> [] \<and> hd p = s0 \<and> legal_path iter p \<and> is_goal (last p) \<and> length p \<le> length q"
proof -
  let ?v = "values (last q)"
  have g: "?v \<in> reachable s0" "is_goal (with_values s0 ?v)" "distance s0 ?v \<le> length q - 1"
    using goal_path_reachable [OF it v0 q] by simp_all
  have fin: "finite (near s0)" using finite_near_goal [OF g(1) g(2)] .
  obtain p where p: "breadth_first_search iter hash s0 = Some (Inr (Sentinel # map Node p))"
    "p \<noteq> []" "hd p = s0" "legal_path iter p" "is_goal (last p)"
    "\<forall>v \<in> reachable s0. is_goal (with_values s0 v) \<longrightarrow> length p \<le> Suc (distance s0 v)"
    using bfs_returns_path [OF it v0 fin g(1) g(2) nc] by blast
  have "length p \<le> Suc (distance s0 ?v)" using p(6) g by blast
  moreover have "Suc (length q - 1) = length q" using q(1) by (cases q) simp_all
  ultimately have "length p \<le> length q" using g(3) by linarith
  then show ?thesis using p by blast
qed

lemma bfs_shortest_raising:
  assumes v0: "\<not> indexable s0"
    and q: "q \<noteq> []" "hd q = s0" "legal_path iter q" "is_goal (last q)"
    and nc: "hash (values s0) \<noteq> hash []"
  shows "\<exists>p. breadth_first_search iter hash s0 = Some (Inr (Sentinel # map Node p))
     \<and> p \<noteq> [] \<and> hd p = s0 \<and> legal_path iter p \<and> is_goal (last p) \<and> length p \<le> length q"
proof -
  obtain e where e: "get_neighbors iter s0 = Inl e" using get_neighbors_raises [OF v0] by blast
  have no: "\<And>t. \<not> is_move iter s0 t" using e by (simp add: is_move_def)
  have "q = [s0]"
  proof (cases q)
    case Nil
    then show ?thesis using q(1) by simp
  next
    case (Cons a r)
    then have a: "a = s0" using q(2) by simp
    show ?thesis
    proof (cases r)
      case Nil
      then show ?thesis using Cons a by simp
    next
      case (Cons t r')
      then have "is_move iter s0 t" using q(3) \<open>q = a # r\<close> a by simp
      then show ?thesis using no by simp
    qed
  qed
  then have g: "is_goal s0" using q(4) by simp
  have "breadth_first_search iter hash s0 = Some (Inr (Sentinel # map Node [s0]))"
    using bfs_start_goal [OF g nc] by simp
  then show ?thesis using g \<open>q = [s0]\<close> by (intro exI [of _ "[s0]"]) simp
qed

text \<open>
  When no tuple that the search can see has the hash of the empty tuple, the search
  returns, after the empty tuple, a shortest sequence of legal moves to a goal, from every
  initial state from which some sequence \<open>q\<close> of legal moves leads to a goal.
\<close>

lemma bfs_shortest_no_collision:
  assumes "set_iteration iter"
    and "q \<noteq> []" "hd q = s0" "legal_path iter q" "is_goal (last q)"
    and "\<forall>k \<in> near s0. hash k \<noteq> hash []"
  shows "\<exists>p. breadth_first_search iter hash s0 = Some (Inr (Sentinel # map Node p))
     \<and> p \<noteq> [] \<and> hd p = s0 \<and> legal_path iter p \<and> is_goal (last p) \<and> length p \<le> length q"
proof (cases "indexable s0")
  case True
  then show ?thesis using bfs_shortest_indexable [OF assms(1) True assms(2-6)] by simp
next
  case False
  have "hash (values s0) \<noteq> hash []" using assms(6) near_start [of s0] by blast
  then show ?thesis by (rule bfs_shortest_raising [OF False assms(2-5)])
qed

section \<open>A tuple with the hash of the empty tuple\<close>

lemma capacity_invariant_collision: "capacity_invariant example_collision"
  by (simp add: capacity_invariant_def example_collision_def less_Suc_eq)

lemma tuple_hash_collision: "tuple_hash [0, 268219835420928158] = tuple_hash []"
  by code_simp

lemma solvable_collision:
  "is_move remdups example_collision (with_values example_collision [1, 0])
   \<and> is_goal (with_values example_collision [1, 0])"
proof -
  have a: "is_move remdups example_collision (with_values example_collision [1, 0])"
    by code_simp
  have b: "is_goal (with_values example_collision [1, 0])" by code_simp
  show ?thesis using a b by simp
qed

text \<open>
  C1.  The claim fails on the code.  From \<open>(0, 0)\<close> with capacities
  \<open>(1, 268219835420928158)\<close> and target \<open>1\<close>, a state within its capacities
  (\<open>capacity_invariant_collision\<close>) from which one legal move reaches the goal \<open>(1, 0)\<close>,
  the search returns no sequence of moves: it raises \<open>AttributeError\<close>, in the order of
  the additions to the set of neighbours and in the reverse order.  The first round puts
  the tuple \<open>(0, 268219835420928158)\<close>, which has the hash of the empty tuple
  (\<open>tuple_hash_collision\<close>), in \<open>explored\<close>, and \<open>unravel_bfs\<close> ends on the test
  \<open>() in explored\<close>.
\<close>

theorem bfs_shortest_fails_on_collision:
  "is_move remdups example_collision (with_values example_collision [1, 0])
   \<and> is_goal (with_values example_collision [1, 0])
   \<and> breadth_first_search remdups tuple_hash example_collision
       = Some (Inl (AttributeError ''values''))
   \<and> breadth_first_search (\<lambda>adds. rev (remdups adds)) tuple_hash example_collision
       = Some (Inl (AttributeError ''values''))"
proof -
  have a: "breadth_first_search remdups tuple_hash example_collision
       = Some (Inl (AttributeError ''values''))"
    by code_simp
  have b: "breadth_first_search (\<lambda>adds. rev (remdups adds)) tuple_hash example_collision
       = Some (Inl (AttributeError ''values''))"
    by code_simp
  show ?thesis using solvable_collision a b by simp
qed

text \<open>
  C10.  The claim fails on the code.  From \<open>(0, 0)\<close> with capacities
  \<open>(1, 268219835420928158)\<close> and target \<open>1\<close>, from which a goal is reachable by one legal
  move, \<open>puzzle_difficulty\<close> has no value: the search under it raises \<open>AttributeError\<close>
  and returns no list that begins with the empty tuple.
\<close>

theorem puzzle_difficulty_fails_on_collision:
  "is_move remdups example_collision (with_values example_collision [1, 0])
   \<and> is_goal (with_values example_collision [1, 0])
   \<and> puzzle_difficulty remdups tuple_hash example_collision
       = Some (Inl (AttributeError ''values''))"
proof -
  have "puzzle_difficulty remdups tuple_hash example_collision
       = Some (Inl (AttributeError ''values''))"
    by code_simp
  then show ?thesis using solvable_collision by simp
qed

section \<open>Unsolvable puzzles\<close>

text \<open>
  C6.  For every initial state that satisfies the capacity invariant and from which no
  sequence of legal moves leads to a goal, the search terminates and returns the empty
  list; it raises nothing.
\<close>

theorem bfs_unsolvable:
  assumes "set_iteration iter" "capacity_invariant s0"
    and "\<forall>q. q \<noteq> [] \<and> hd q = s0 \<and> legal_path iter q \<longrightarrow> \<not> is_goal (last q)"
  shows "breadth_first_search iter hash s0 = Some (Inr [])"
proof -
  have a: "\<not> (\<exists>p. breadth_first_search iter hash s0 = Some (Inr (Sentinel # map Node p)) \<and> p \<noteq> []
           \<and> hd p = s0 \<and> legal_path iter p \<and> is_goal (last p)
           \<and> (\<forall>v \<in> reachable s0. is_goal (with_values s0 v) \<longrightarrow> length p \<le> Suc (distance s0 v)))"
    using assms(3) by blast
  have b: "\<not> (\<exists>p. p \<noteq> [] \<and> hd p = s0 \<and> legal_path iter p \<and> is_goal (last p))"
    using assms(3) by blast
  show ?thesis
    using bfs_post_search [OF assms(1) assms(2), of hash] a b unfolding bfs_post_def by blast
qed

lemma capacity_invariant_unsolvable: "capacity_invariant example_unsolvable"
  by (simp add: capacity_invariant_def example_unsolvable_def less_Suc_eq)

lemma target_above_capacities:
  assumes it: "set_iteration iter" and v0: "capacity_invariant s0"
    and big: "\<forall>c \<in> set (constraints s0). c < target s0"
  shows "\<forall>q. q \<noteq> [] \<and> hd q = s0 \<and> legal_path iter q \<longrightarrow> \<not> is_goal (last q)"
proof (intro allI impI)
  fix q assume q: "q \<noteq> [] \<and> hd q = s0 \<and> legal_path iter q"
  let ?v = "values (last q)"
  have r: "reach s0 (length q - 1) ?v" and l: "last q = with_values s0 ?v"
    using legal_path_reach [OF it capacity_indexable [OF v0], of q] q by simp_all
  have sp: "?v \<in> space (constraints s0)" using reach_space [OF v0 r] .
  have "\<forall>x \<in> set ?v. x < target s0"
  proof
    fix x assume "x \<in> set ?v"
    then obtain i where i: "i < length ?v" "?v ! i = x" by (auto simp add: in_set_conv_nth)
    then have "x \<le> constraints s0 ! i" "i < length (constraints s0)"
      using sp by (auto simp add: space_def)
    then show "x < target s0" using big nth_mem [of i "constraints s0"] by fastforce
  qed
  moreover have "target (last q) = target s0" using l by (metis with_values_def State.select_convs(3))
  ultimately show "\<not> is_goal (last q)" by (auto simp add: is_goal_def list_ex_iff)
qed

theorem bfs_unsolvable_witness:
  "set_iteration remdups \<and> capacity_invariant example_unsolvable
   \<and> breadth_first_search remdups tuple_hash example_unsolvable = Some (Inr [])"
proof -
  have "\<forall>c \<in> set (constraints example_unsolvable). c < target example_unsolvable"
    by (simp add: example_unsolvable_def)
  then have h: "\<forall>q. q \<noteq> [] \<and> hd q = example_unsolvable \<and> legal_path remdups q
      \<longrightarrow> \<not> is_goal (last q)"
    using target_above_capacities [OF set_iteration_remdups capacity_invariant_unsolvable]
    by simp
  show ?thesis
    using bfs_unsolvable [OF set_iteration_remdups capacity_invariant_unsolvable h, of tuple_hash]
      set_iteration_remdups capacity_invariant_unsolvable
    by simp
qed

section \<open>Each tuple is put in the queue once\<close>

lemma bfs_run_invariant:
  assumes it: "set_iteration iter" and v0: "capacity_invariant s0"
  shows "bfs_run iter s0 al Q enq \<Longrightarrow>
     bfs_invariant s0 (map_of al) Q \<and> distinct (map values enq) \<and> map values enq = map fst al"
proof (induction rule: bfs_run.induct)
  case run_start
  have m: "map_of [(values s0, Sentinel)] = [values s0 \<mapsto> Sentinel]" by simp
  have i: "bfs_invariant s0 (map_of [(values s0, Sentinel)]) [s0]"
    unfolding m by (rule bfs_invariant_start)
  have "distinct (map values [s0])" "map values [s0] = map fst [(values s0, Sentinel)]"
    by simp_all
  then show ?case using i by blast
next
  case (run_step al p rest enq ns al' Q')
  have I: "bfs_invariant s0 (map_of al) (p # rest)" and d: "distinct (map values enq)"
    and e: "map values enq = map fst al"
    using run_step.IH by blast+
  obtain ns' new where st: "get_neighbors iter p = Inr ns'"
    "foldl (visit p) (al, rest) ns' = (al @ discoveries p new, rest @ new)"
    "map_of (al @ discoveries p new) = discover p (map_of al)"
    "bfs_invariant s0 (discover p (map_of al)) (rest @ new)"
    "distinct (map values new)" "values ` set new = {k \<in> moves p. map_of al k = None}"
    using bfs_invariant_step [OF it capacity_indexable [OF v0] I run_step.hyps(2)] by blast
  have "ns' = ns" using st(1) run_step.hyps(3) by simp
  then have eq: "al' = al @ discoveries p new" "Q' = rest @ new"
    using st(2) run_step.hyps(4) by simp_all
  have dr: "drop (length rest) (rest @ new) = new" by simp
  have "set (map values enq) = dom (map_of al)"
    unfolding e by (simp add: dom_map_of_conv_image_fst)
  then have disj: "set (map values enq) \<inter> set (map values new) = {}"
    using st(6) by auto
  have a: "distinct (map values (enq @ new))" using d st(5) disj by simp
  have b: "map values (enq @ new) = map fst (al @ discoveries p new)"
    using e by (simp add: discoveries_def comp_def)
  have c: "bfs_invariant s0 (map_of (al @ discoveries p new)) (rest @ new)"
    using st(4) unfolding st(3) .
  show ?case unfolding eq dr by (intro conjI a b c)
qed

lemma finite_reachable:
  assumes "capacity_invariant s0"
  shows "finite (reachable s0)
     \<and> card (reachable s0) \<le> prod_list (map (\<lambda>c. nat (c + 1)) (constraints s0))"
proof -
  have fin: "finite (space (constraints s0))" using finite_card_space by simp
  have sub: "reachable s0 \<subseteq> space (constraints s0)" using reachable_space [OF assms] .
  have "card (reachable s0) \<le> card (space (constraints s0))" using card_mono [OF fin sub] .
  then show ?thesis using finite_subset [OF sub fin] finite_card_space [of "constraints s0"] by simp
qed

lemma bfs_returns_or_raises:
  assumes "set_iteration iter" "capacity_invariant s0"
  shows "(\<exists>path. breadth_first_search iter hash s0 = Some (Inr path))
     \<or> breadth_first_search iter hash s0 = Some (Inl (AttributeError ''values''))"
  using bfs_post_search [OF assms, of hash] unfolding bfs_post_def by blast

text \<open>
  C8.  On every initial state that satisfies the capacity invariant the search
  terminates: it returns a list, or it raises \<open>AttributeError\<close> from the last test of
  \<open>unravel_bfs\<close>; it never runs forever.  The tuples reachable from the initial state are
  finitely many, at most the product of \<open>capacity + 1\<close> over the buckets.  In every state
  that the loop goes through, the states that have been put in the queue so far have
  pairwise different tuples, and their tuples are exactly the keys of \<open>explored\<close>, in the
  same order, all reachable: a state enters the queue only when its tuple enters
  \<open>explored\<close>.
\<close>

theorem bfs_terminates:
  assumes "set_iteration iter" "capacity_invariant s0"
  shows "((\<exists>path. breadth_first_search iter hash s0 = Some (Inr path))
          \<or> breadth_first_search iter hash s0 = Some (Inl (AttributeError ''values'')))
     \<and> finite (reachable s0)
     \<and> card (reachable s0) \<le> prod_list (map (\<lambda>c. nat (c + 1)) (constraints s0))
     \<and> (\<forall>explored queue enqueued. bfs_run iter s0 explored queue enqueued \<longrightarrow>
           distinct (map values enqueued) \<and> map values enqueued = map fst explored
           \<and> fst ` set explored \<subseteq> reachable s0)"
proof -
  have r: "\<forall>al Q enq. bfs_run iter s0 al Q enq \<longrightarrow>
           distinct (map values enq) \<and> map values enq = map fst al
           \<and> fst ` set al \<subseteq> reachable s0"
  proof (intro allI impI)
    fix al Q enq assume r: "bfs_run iter s0 al Q enq"
    have i: "bfs_invariant s0 (map_of al) Q \<and> distinct (map values enq)
        \<and> map values enq = map fst al"
      using bfs_run_invariant [OF assms r] .
    then have "tree_invariant s0 (map_of al)" by (simp add: bfs_invariant_def)
    then have "dom (map_of al) \<subseteq> reachable s0" by (auto simp add: tree_invariant_def)
    then have "fst ` set al \<subseteq> reachable s0" by (simp add: dom_map_of_conv_image_fst)
    then show "distinct (map values enq) \<and> map values enq = map fst al
        \<and> fst ` set al \<subseteq> reachable s0"
      using i by blast
  qed
  have f: "finite (reachable s0)"
    "card (reachable s0) \<le> prod_list (map (\<lambda>c. nat (c + 1)) (constraints s0))"
    using finite_reachable [OF assms(2)] by simp_all
  show ?thesis by (intro conjI bfs_returns_or_raises [OF assms] f r)
qed

theorem bfs_terminates_witness:
  "set_iteration remdups \<and> capacity_invariant example_collision
   \<and> ((\<exists>path. breadth_first_search remdups tuple_hash example_collision = Some (Inr path))
      \<or> breadth_first_search remdups tuple_hash example_collision
          = Some (Inl (AttributeError ''values'')))
   \<and> finite (reachable example_collision)
   \<and> card (reachable example_collision) \<le> 2 * 268219835420928159"
proof -
  have "prod_list (map (\<lambda>c. nat (c + 1)) (constraints example_collision))
      = 2 * 268219835420928159"
    by (simp add: example_collision_def)
  then show ?thesis
    using bfs_terminates [OF set_iteration_remdups capacity_invariant_collision, of tuple_hash]
      set_iteration_remdups capacity_invariant_collision
    by simp
qed

section \<open>The solution of the example\<close>

lemma die_hard_nearest_goal:
  assumes v: "v \<in> reachable example_die_hard" "is_goal (with_values example_die_hard v)"
  shows "6 \<le> distance example_die_hard v"
proof -
  have fin: "finite (near example_die_hard)"
    using finite_near_valid [OF capacity_invariant_die_hard] .
  have nc: "\<forall>k \<in> near example_die_hard. tuple_hash k \<noteq> tuple_hash []"
    using die_hard_no_collision by blast
  obtain p where p: "breadth_first_search remdups tuple_hash example_die_hard
        = Some (Inr (Sentinel # map Node p))"
    "\<forall>v \<in> reachable example_die_hard. is_goal (with_values example_die_hard v)
        \<longrightarrow> length p \<le> Suc (distance example_die_hard v)"
    using bfs_returns_path [OF set_iteration_remdups
        capacity_indexable [OF capacity_invariant_die_hard] fin v nc]
    by blast
  have "map Node p = map Node die_hard_path" using p(1) by (simp add: bfs_die_hard_remdups)
  then have "length p = length die_hard_path" by (metis length_map)
  then have "length die_hard_path \<le> Suc (distance example_die_hard v)" using p(2) v by simp
  then show ?thesis by (simp add: die_hard_path_def)
qed

text \<open>
  C5.  From \<open>(0, 0)\<close> with capacities \<open>(5, 3)\<close>, target \<open>4\<close> and refills allowed, and in
  whatever order the sets of neighbours are iterated, the search returns the empty tuple
  followed by a solution of seven states (six legal moves) that starts at \<open>(0, 0)\<close> and
  whose last state has a bucket holding \<open>4\<close>.  No tuple within the capacities \<open>(5, 3)\<close>
  has the hash of the empty tuple.
\<close>

theorem bfs_die_hard:
  assumes "set_iteration iter"
  shows "\<exists>p. breadth_first_search iter tuple_hash example_die_hard
         = Some (Inr (Sentinel # map Node p))
     \<and> length p = 7 \<and> hd p = example_die_hard \<and> legal_path iter p
     \<and> 4 \<in> set (values (last p))"
proof -
  note v0 = capacity_invariant_die_hard
  have a: "die_hard_path \<noteq> []" by (simp add: die_hard_path_def)
  have b: "hd die_hard_path = example_die_hard"
    by (simp add: die_hard_path_def with_values_def example_die_hard_def)
  have d: "is_goal (last die_hard_path)" by code_simp
  have g: "values (last die_hard_path) \<in> reachable example_die_hard"
    "is_goal (with_values example_die_hard (values (last die_hard_path)))"
    "distance example_die_hard (values (last die_hard_path)) \<le> length die_hard_path - 1"
    using goal_path_reachable [OF set_iteration_remdups capacity_indexable [OF v0] a b
        legal_die_hard_path d]
    by simp_all
  have fin: "finite (near example_die_hard)" using finite_near_valid [OF v0] .
  have nc: "\<forall>k \<in> near example_die_hard. tuple_hash k \<noteq> tuple_hash []"
    using die_hard_no_collision by blast
  obtain p where p: "breadth_first_search iter tuple_hash example_die_hard
        = Some (Inr (Sentinel # map Node p))"
    "p \<noteq> []" "hd p = example_die_hard" "legal_path iter p" "is_goal (last p)"
    "\<forall>v \<in> reachable example_die_hard. is_goal (with_values example_die_hard v)
        \<longrightarrow> length p \<le> Suc (distance example_die_hard v)"
    using bfs_returns_path [OF assms capacity_indexable [OF v0] fin g(1) g(2) nc] by blast
  have "length p \<le> Suc (distance example_die_hard (values (last die_hard_path)))"
    using p(6) g by blast
  then have le: "length p \<le> 7" using g(3) by (simp add: die_hard_path_def)
  have h: "values (last p) \<in> reachable example_die_hard"
    "is_goal (with_values example_die_hard (values (last p)))"
    "distance example_die_hard (values (last p)) \<le> length p - 1"
    using goal_path_reachable [OF assms capacity_indexable [OF v0] p(2) p(3) p(4) p(5)]
    by simp_all
  have "6 \<le> length p - 1" using die_hard_nearest_goal [OF h(1) h(2)] h(3) by simp
  then have len: "length p = 7" using le by simp
  have "list_ex (\<lambda>val. val = target (with_values example_die_hard (values (last p))))
      (values (last p))"
    using h(2) by (simp add: is_goal_def values_with_values)
  then have "4 \<in> set (values (last p))"
    by (simp add: with_values_def example_die_hard_def list_ex_iff)
  then show ?thesis using p len by blast
qed

theorem bfs_die_hard_witness:
  "set_iteration remdups
   \<and> (\<exists>p. breadth_first_search remdups tuple_hash example_die_hard
          = Some (Inr (Sentinel # map Node p))
     \<and> length p = 7 \<and> hd p = example_die_hard \<and> legal_path remdups p
     \<and> 4 \<in> set (values (last p)))"
  using bfs_die_hard [OF set_iteration_remdups] set_iteration_remdups by simp

end
